theory Spec2Isabelle
  imports Complex_Main "HOL-Library.Word" "HOL-Library.Multiset"
begin

unbundle bit_operations_syntax

section \<open>IEEE 754 binary64 arithmetic, as far as the pipeline uses it\<close>

text \<open>
  Go's \<^verbatim>\<open>float64\<close> is IEEE 754 binary64 with round-to-nearest, ties-to-even.
  A value of the model is the real number the float denotes, or an infinity, or NaN.
  The finite floats are zero and the numbers \<open>\<plusminus> m * 2 ^ e\<close> with \<open>m < 2 ^ 53\<close>
  and \<open>- 1074 \<le> e \<le> 971\<close>; every operation rounds its exact result to the nearest
  of them with \<open>round_f64\<close>. The sign of zero is not kept: the modelled code only
  compares, multiplies and converts floats, and it divides only by converted
  integer counters, so no result depends on it.
\<close>

datatype float64 = Fin real | PInf | NInf | NaN

definition pow2 :: "int \<Rightarrow> real" where
  "pow2 e = (if 0 \<le> e then 2 ^ nat e else 1 / 2 ^ nat (- e))"

text \<open>\<open>log2floor n\<close> is \<open>\<lfloor>log\<^sub>2 n\<rfloor>\<close> and \<open>log2ceil n\<close> is \<open>\<lceil>log\<^sub>2 n\<rceil>\<close>, for \<open>n \<ge> 1\<close>.\<close>

function log2floor :: "int \<Rightarrow> int" where
  "log2floor n = (if n < 2 then 0 else 1 + log2floor (n div 2))"
  by pat_completeness auto
termination by (relation "measure nat") auto

function log2ceil :: "int \<Rightarrow> int" where
  "log2ceil n = (if n < 2 then 0 else 1 + log2ceil ((n + 1) div 2))"
  by pat_completeness auto
termination by (relation "measure nat") auto

declare log2floor.simps [simp del] log2ceil.simps [simp del]

text \<open>The binary exponent of a positive number: \<open>2 ^ ilog2 a \<le> a < 2 ^ (ilog2 a + 1)\<close>.\<close>

definition ilog2 :: "real \<Rightarrow> int" where
  "ilog2 a = (if 1 \<le> a then log2floor \<lfloor>a\<rfloor> else - log2ceil \<lceil>1 / a\<rceil>)"

definition round_half_even :: "real \<Rightarrow> int" where
  "round_half_even x =
     (if x - of_int \<lfloor>x\<rfloor> < 1 / 2 then \<lfloor>x\<rfloor>
      else if 1 / 2 < x - of_int \<lfloor>x\<rfloor> then \<lfloor>x\<rfloor> + 1
      else if even \<lfloor>x\<rfloor> then \<lfloor>x\<rfloor> else \<lfloor>x\<rfloor> + 1)"

text \<open>
  The exponent of the unit in the last place of the floats around \<open>a\<close> (53 significant
  bits, subnormal below \<open>2 ^ - 1022\<close>), and rounding to a multiple of that unit.
\<close>

definition f64_exponent :: "real \<Rightarrow> int" where
  "f64_exponent a = max (ilog2 a - 52) (- 1074)"

definition round_to :: "int \<Rightarrow> real \<Rightarrow> real" where
  "round_to e a = of_int (round_half_even (a / pow2 e)) * pow2 e"

definition round_f64 :: "real \<Rightarrow> float64" where
  "round_f64 q =
     (if q = 0 then Fin 0
      else if pow2 1024 \<le> round_to (f64_exponent \<bar>q\<bar>) \<bar>q\<bar>
           then (if 0 < q then PInf else NInf)
      else Fin (sgn q * round_to (f64_exponent \<bar>q\<bar>) \<bar>q\<bar>))"

fun f64_neg :: "float64 \<Rightarrow> float64" where
  "f64_neg (Fin a) = Fin (- a)"
| "f64_neg PInf = NInf"
| "f64_neg NInf = PInf"
| "f64_neg NaN = NaN"

text \<open>An infinity times, or divided by, a finite number of the given sign.\<close>

definition inf_scaled :: "float64 \<Rightarrow> real \<Rightarrow> float64" where
  "inf_scaled i a = (if a = 0 then NaN else if 0 < a then i else f64_neg i)"

fun f64_mul :: "float64 \<Rightarrow> float64 \<Rightarrow> float64" where
  "f64_mul (Fin a) (Fin b) = round_f64 (a * b)"
| "f64_mul NaN y = NaN"
| "f64_mul x NaN = NaN"
| "f64_mul (Fin a) i = inf_scaled i a"
| "f64_mul i (Fin b) = inf_scaled i b"
| "f64_mul i j = (if i = j then PInf else NInf)"

fun f64_div :: "float64 \<Rightarrow> float64 \<Rightarrow> float64" where
  "f64_div (Fin a) (Fin b) =
     (if b = 0 then (if a = 0 then NaN else if 0 < a then PInf else NInf)
      else round_f64 (a / b))"
| "f64_div NaN y = NaN"
| "f64_div x NaN = NaN"
| "f64_div (Fin a) i = Fin 0"
| "f64_div i (Fin b) = (if 0 \<le> b then i else f64_neg i)"
| "f64_div i j = NaN"

fun f64_sub :: "float64 \<Rightarrow> float64 \<Rightarrow> float64" where
  "f64_sub (Fin a) (Fin b) = round_f64 (a - b)"
| "f64_sub NaN y = NaN"
| "f64_sub x NaN = NaN"
| "f64_sub (Fin a) i = f64_neg i"
| "f64_sub i (Fin b) = i"
| "f64_sub i j = (if i = j then NaN else i)"

text \<open>Comparisons; every comparison with NaN is false.\<close>

fun f64_lt :: "float64 \<Rightarrow> float64 \<Rightarrow> bool" where
  "f64_lt (Fin a) (Fin b) = (a < b)"
| "f64_lt NaN y = False"
| "f64_lt x NaN = False"
| "f64_lt x NInf = False"
| "f64_lt PInf y = False"
| "f64_lt x y = True"

fun f64_le :: "float64 \<Rightarrow> float64 \<Rightarrow> bool" where
  "f64_le (Fin a) (Fin b) = (a \<le> b)"
| "f64_le NaN y = False"
| "f64_le x NaN = False"
| "f64_le NInf y = True"
| "f64_le x PInf = True"
| "f64_le x y = False"

definition f64_gt :: "float64 \<Rightarrow> float64 \<Rightarrow> bool" where
  "f64_gt x y = f64_lt y x"

definition f64_ge :: "float64 \<Rightarrow> float64 \<Rightarrow> bool" where
  "f64_ge x y = f64_le y x"

text \<open>A floating-point literal of the source denotes the nearest float.\<close>

definition f64_const :: "real \<Rightarrow> float64" where
  "f64_const q = round_f64 q"

subsection \<open>Conversions between integers and floats\<close>

type_synonym uint64 = "64 word"

definition float64_of_uint64 :: "uint64 \<Rightarrow> float64" where
  "float64_of_uint64 w = round_f64 (of_int (uint w))"

definition float64_of_int :: "int \<Rightarrow> float64" where
  "float64_of_int i = round_f64 (of_int i)"

definition trunc :: "real \<Rightarrow> int" where
  "trunc q = (if 0 \<le> q then \<lfloor>q\<rfloor> else \<lceil>q\<rceil>)"

text \<open>
  Converting a float to an integer discards the fraction. When the truncated value
  does not fit the integer type, Go leaves the result to the implementation; the
  model takes the implementation's answers as a parameter.
\<close>

record conversions =
  to_uint64 :: "float64 \<Rightarrow> uint64"
  to_int :: "float64 \<Rightarrow> int"

definition uint64_of_float64 :: "conversions \<Rightarrow> float64 \<Rightarrow> uint64" where
  "uint64_of_float64 impl x =
     (case x of
        Fin q \<Rightarrow> if - 1 < q \<and> q < 2 ^ 64 then word_of_int (trunc q) else to_uint64 impl x
      | _ \<Rightarrow> to_uint64 impl x)"

definition int_of_float64 :: "conversions \<Rightarrow> float64 \<Rightarrow> int" where
  "int_of_float64 impl x =
     (case x of
        Fin q \<Rightarrow> if - (2 ^ 63) - 1 < q \<and> q < 2 ^ 63 then trunc q else to_int impl x
      | _ \<Rightarrow> to_int impl x)"

text \<open>
  The gc compiler on amd64. \<^verbatim>\<open>CVTTSD2SQ\<close> truncates to a signed 64-bit integer and
  yields \<^verbatim>\<open>0x8000000000000000\<close> for NaN and for anything out of range. For
  \<^verbatim>\<open>uint64(x)\<close> the compiler emits: if \<open>x < 2 ^ 63\<close> then \<^verbatim>\<open>CVTTSD2SQ(x)\<close> else
  \<^verbatim>\<open>CVTTSD2SQ(x - 2 ^ 63) | 0x8000000000000000\<close>.
\<close>

definition cvttsd2sq :: "float64 \<Rightarrow> uint64" where
  "cvttsd2sq x =
     (case x of
        Fin q \<Rightarrow> if - (2 ^ 63) - 1 < q \<and> q < 2 ^ 63 then word_of_int (trunc q)
                 else 0x8000000000000000
      | _ \<Rightarrow> 0x8000000000000000)"

definition gc_amd64 :: conversions where
  "gc_amd64 =
     \<lparr> to_uint64 = (\<lambda>x. if f64_lt x (Fin (2 ^ 63)) then cvttsd2sq x
                        else cvttsd2sq (f64_sub x (Fin (2 ^ 63))) OR 0x8000000000000000),
       to_int = (\<lambda>x. sint (cvttsd2sq x)) \<rparr>"

text \<open>The gc compiler on arm64: \<^verbatim>\<open>FCVTZU\<close> and \<^verbatim>\<open>FCVTZS\<close> saturate, NaN gives 0.\<close>

definition gc_arm64 :: conversions where
  "gc_arm64 =
     \<lparr> to_uint64 = (\<lambda>x. case x of Fin q \<Rightarrow> if q < 0 then 0 else - 1
                              | PInf \<Rightarrow> - 1 | _ \<Rightarrow> 0),
       to_int = (\<lambda>x. case x of Fin q \<Rightarrow> if q < 0 then - (2 ^ 63) else 2 ^ 63 - 1
                           | PInf \<Rightarrow> 2 ^ 63 - 1 | NInf \<Rightarrow> - (2 ^ 63) | NaN \<Rightarrow> 0) \<rparr>"


section \<open>The data model (package model)\<close>

text \<open>
  \<^verbatim>\<open>TraceID\<close> is two unsigned 64-bit halves, \<^verbatim>\<open>SpanID\<close> one unsigned 64-bit integer.
  \<^verbatim>\<open>time.Duration\<close> and the \<^verbatim>\<open>int64\<close> payload of a tag are signed 64-bit integers
  that the modelled code only compares with one another, so they are integers here.
\<close>

record TraceID =
  High :: uint64
  Low :: uint64

type_synonym SpanID = uint64

type_synonym Duration = int

text \<open>\<^verbatim>\<open>ValueType\<close> is a string type of the source, with five named values.\<close>

type_synonym ValueType = string

definition StringType :: ValueType where "StringType = ''string''"
definition BoolType :: ValueType where "BoolType = ''bool''"
definition Int64Type :: ValueType where "Int64Type = ''int64''"
definition Float64Type :: ValueType where "Float64Type = ''float64''"
definition BinaryType :: ValueType where "BinaryType = ''binary''"

record KeyValue =
  Key :: string
  VType :: ValueType
  VStr :: string
  VInt64 :: int
  VFloat64 :: float64
  VBool :: bool
  VBinary :: "8 word list"

text \<open>
  Of a span, the fields the pipeline stages read or write, and the identifiers
  and the name that tell two spans of one trace apart.
\<close>

record Span =
  TraceID :: TraceID
  SpanID :: SpanID
  ParentSpanID :: SpanID
  OperationName :: string
  Flags :: "32 word"
  Duration :: Duration
  Tags :: "KeyValue list"

definition IsValid :: "TraceID \<Rightarrow> bool" where
  "IsValid t = (High t \<noteq> 0 \<or> Low t \<noteq> 0)"

section \<open>The sampling stage (processor/sampling.go)\<close>

text \<open>
  The processor's fields without its lock and its unused random source;
  \<^verbatim>\<open>recentErrors\<close>, \<^verbatim>\<open>recentTotal\<close> and \<^verbatim>\<open>adaptiveWindow\<close> are Go \<^verbatim>\<open>int\<close>s.
\<close>

record SamplingProcessor =
  name :: string
  baseSampleRate :: float64
  alwaysSampleErrors :: bool
  slowThreshold :: Duration
  recentErrors :: int
  recentTotal :: int
  adaptiveRate :: float64
  adaptiveWindow :: int

record SamplingConfig =
  BaseSampleRate :: float64
  AlwaysSampleErrors :: bool
  SlowThreshold :: Duration
  AdaptiveWindow :: int

definition DefaultSamplingConfig :: SamplingConfig where
  "DefaultSamplingConfig =
     \<lparr> BaseSampleRate = f64_const (1 / 10), AlwaysSampleErrors = True,
       SlowThreshold = 1000000000, AdaptiveWindow = 1000 \<rparr>"

definition NewSamplingProcessor :: "string \<Rightarrow> SamplingConfig \<Rightarrow> SamplingProcessor" where
  "NewSamplingProcessor nm config =
     \<lparr> name = nm,
       baseSampleRate = BaseSampleRate config,
       alwaysSampleErrors = AlwaysSampleErrors config,
       slowThreshold = SlowThreshold config,
       recentErrors = 0,
       recentTotal = 0,
       adaptiveRate = BaseSampleRate config,
       adaptiveWindow = AdaptiveWindow config \<rparr>"

text \<open>\<^verbatim>\<open>isError\<close>: the loop over the tags returns at the first tag that marks an error.\<close>

fun isError_tags :: "KeyValue list \<Rightarrow> bool" where
  "isError_tags [] = False"
| "isError_tags (tag # rest) =
     (if Key tag = ''error'' \<and> VType tag = BoolType \<and> VBool tag then True
      else if Key tag = ''http.status_code'' \<and> VType tag = Int64Type \<and> 500 \<le> VInt64 tag
           then True
      else isError_tags rest)"

definition isError :: "Span \<Rightarrow> bool" where
  "isError sp = isError_tags (Tags sp)"

text \<open>The package's own \<^verbatim>\<open>min\<close>: \<^verbatim>\<open>if a < b { return a }; return b\<close>.\<close>

definition min_f64 :: "float64 \<Rightarrow> float64 \<Rightarrow> float64" where
  "min_f64 a b = (if f64_lt a b then a else b)"

definition recordSample :: "SamplingProcessor \<Rightarrow> bool \<Rightarrow> SamplingProcessor" where
  "recordSample p isErr =
     (let p1 = p\<lparr>recentTotal := recentTotal p + 1\<rparr>;
          p2 = (if isErr then p1\<lparr>recentErrors := recentErrors p1 + 1\<rparr> else p1)
      in if adaptiveWindow p2 \<le> recentTotal p2 then
           (let errorRate = f64_div (float64_of_int (recentErrors p2))
                                    (float64_of_int (recentTotal p2));
                p3 = (if f64_gt errorRate (f64_const (5 / 100)) then
                        p2\<lparr>adaptiveRate :=
                             min_f64 (f64_const 1) (f64_mul (baseSampleRate p2) (f64_const 2))\<rparr>
                      else if f64_gt errorRate (f64_const (1 / 100)) then
                        p2\<lparr>adaptiveRate :=
                             min_f64 (f64_const 1) (f64_mul (baseSampleRate p2) (f64_const (3 / 2)))\<rparr>
                      else p2\<lparr>adaptiveRate := baseSampleRate p2\<rparr>)
            in p3\<lparr>recentErrors := 0, recentTotal := 0\<rparr>)
         else p2)"

definition getAdaptiveRate :: "SamplingProcessor \<Rightarrow> float64" where
  "getAdaptiveRate p = adaptiveRate p"

text \<open>\<^verbatim>\<open>threshold := uint64(float64(^uint64(0)) * rate); return traceID.Low <= threshold\<close>\<close>

definition sample_threshold :: "conversions \<Rightarrow> float64 \<Rightarrow> uint64" where
  "sample_threshold impl rate =
     uint64_of_float64 impl (f64_mul (float64_of_uint64 (NOT 0)) rate)"

definition deterministicSample :: "conversions \<Rightarrow> TraceID \<Rightarrow> float64 \<Rightarrow> bool" where
  "deterministicSample impl traceID rate = (Low traceID \<le> sample_threshold impl rate)"

text \<open>\<^verbatim>\<open>shouldSample\<close> returns the decision and leaves the processor updated.\<close>

definition shouldSample :: "conversions \<Rightarrow> SamplingProcessor \<Rightarrow> Span \<Rightarrow> bool \<times> SamplingProcessor" where
  "shouldSample impl p sp =
     (if alwaysSampleErrors p \<and> isError sp then (True, recordSample p True)
      else if slowThreshold p \<le> Duration sp then (True, recordSample p False)
      else (let rate = getAdaptiveRate p;
                decision = deterministicSample impl (TraceID sp) rate
            in (decision, recordSample p (isError sp))))"


section \<open>The metrics engine and the health evaluator (package observability)\<close>

text \<open>
  \<^verbatim>\<open>Snapshot\<close> sorts a copy of the latency buffer, so arrays live in a store:
  an address holds the contents of one backing array, and \<^verbatim>\<open>make\<close> returns an
  address that was not in use.
\<close>

type_synonym addr = nat

record heap =
  cells :: "addr \<Rightarrow> Duration list"
  next_free :: addr

definition alloc :: "heap \<Rightarrow> Duration list \<Rightarrow> addr \<times> heap" where
  "alloc h xs = (next_free h, h\<lparr>cells := (cells h)(next_free h := xs), next_free := Suc (next_free h)\<rparr>)"

definition store :: "heap \<Rightarrow> addr \<Rightarrow> Duration list \<Rightarrow> heap" where
  "store h a xs = h\<lparr>cells := (cells h)(a := xs)\<rparr>"

datatype panic =
  SliceBoundsOutOfRange | IndexOutOfRange | MakeSliceCapOutOfRange | MakeChanSizeOutOfRange
  | NonPositiveTickerInterval

text \<open>The five counters are \<^verbatim>\<open>atomic.Uint64\<close>; \<^verbatim>\<open>processingTimes\<close> is the buffer's array.\<close>

record Metrics =
  spansReceived :: uint64
  spansProcessed :: uint64
  spansDropped :: uint64
  spansExported :: uint64
  exportErrors :: uint64
  processingTimes :: addr
  maxSamples :: int

definition NewMetrics :: "heap \<Rightarrow> Metrics \<times> heap" where
  "NewMetrics h =
     (case alloc h [] of (a, h') \<Rightarrow>
        (\<lparr> spansReceived = 0, spansProcessed = 0, spansDropped = 0, spansExported = 0,
           exportErrors = 0, processingTimes = a, maxSamples = 1000 \<rparr>, h'))"

definition RecordSpanReceived :: "Metrics \<Rightarrow> Metrics" where
  "RecordSpanReceived m = m\<lparr>spansReceived := spansReceived m + 1\<rparr>"

definition RecordSpanDropped :: "Metrics \<Rightarrow> Metrics" where
  "RecordSpanDropped m = m\<lparr>spansDropped := spansDropped m + 1\<rparr>"

definition RecordSpanExported :: "Metrics \<Rightarrow> Metrics" where
  "RecordSpanExported m = m\<lparr>spansExported := spansExported m + 1\<rparr>"

definition RecordExportError :: "Metrics \<Rightarrow> Metrics" where
  "RecordExportError m = m\<lparr>exportErrors := exportErrors m + 1\<rparr>"

text \<open>
  \<^verbatim>\<open>RecordProcessingTime\<close>. When the buffer is full,
  \<^verbatim>\<open>copy(m.processingTimes, m.processingTimes[1:])\<close> moves every element but the first
  one place down and leaves the last in place, the reslice \<^verbatim>\<open>[:m.maxSamples-1]\<close>
  cuts the buffer, and \<^verbatim>\<open>append\<close> adds the new sample. The slice expressions panic
  on an empty buffer and on a negative bound.
\<close>

definition RecordProcessingTime :: "heap \<Rightarrow> Metrics \<Rightarrow> Duration \<Rightarrow> panic + heap" where
  "RecordProcessingTime h m d =
     (let buf = cells h (processingTimes m) in
      if maxSamples m \<le> int (length buf) then
        (if length buf < 1 then Inl SliceBoundsOutOfRange
         else let shifted = tl buf @ [last buf] in
              if maxSamples m - 1 < 0 then Inl SliceBoundsOutOfRange
              else Inr (store h (processingTimes m)
                         (take (nat (maxSamples m - 1)) shifted @ [d])))
      else Inr (store h (processingTimes m) (buf @ [d])))"

text \<open>A run of recordings stops at the first panic.\<close>

fun record_all :: "heap \<Rightarrow> Metrics \<Rightarrow> Duration list \<Rightarrow> panic + heap" where
  "record_all h m [] = Inr h"
| "record_all h m (d # ds) =
     (case RecordProcessingTime h m d of Inl e \<Rightarrow> Inl e | Inr h' \<Rightarrow> record_all h' m ds)"

record MetricsSnapshot =
  SpansReceived :: uint64
  SpansProcessed :: uint64
  SpansDropped :: uint64
  SpansExported :: uint64
  ExportErrors :: uint64
  LatencyP50 :: Duration
  LatencyP95 :: Duration
  LatencyP99 :: Duration

text \<open>
  The sort of \<^verbatim>\<open>Snapshot\<close>: for every \<open>i\<close>, for every \<open>j > i\<close>, swap \<^verbatim>\<open>sorted[i]\<close> and
  \<^verbatim>\<open>sorted[j]\<close> when they are out of order. \<open>n\<close> is \<^verbatim>\<open>len(sorted)\<close>.
\<close>

function sort_inner :: "Duration list \<Rightarrow> nat \<Rightarrow> nat \<Rightarrow> nat \<Rightarrow> Duration list" where
  "sort_inner s i j n =
     (if j < n then sort_inner (if s ! j < s ! i then s[i := s ! j, j := s ! i] else s) i (j + 1) n
      else s)"
  by pat_completeness auto
termination by (relation "measure (\<lambda>(s, i, j, n). n - j)") auto

function sort_outer :: "Duration list \<Rightarrow> nat \<Rightarrow> nat \<Rightarrow> Duration list" where
  "sort_outer s i n = (if i < n then sort_outer (sort_inner s i (i + 1) n) (i + 1) n else s)"
  by pat_completeness auto
termination by (relation "measure (\<lambda>(s, i, n). n - i)") auto

declare sort_inner.simps [simp del] sort_outer.simps [simp del]

definition index_at :: "Duration list \<Rightarrow> int \<Rightarrow> panic + Duration" where
  "index_at s i = (if 0 \<le> i \<and> i < int (length s) then Inr (s ! nat i) else Inl IndexOutOfRange)"

text \<open>\<^verbatim>\<open>int(float64(len(sorted)) * 0.95)\<close>, for the literal \<open>c\<close>.\<close>

definition percentile_index :: "conversions \<Rightarrow> real \<Rightarrow> nat \<Rightarrow> int" where
  "percentile_index impl c n =
     int_of_float64 impl (f64_mul (float64_of_int (int n)) (f64_const c))"

definition Snapshot :: "conversions \<Rightarrow> heap \<Rightarrow> Metrics \<Rightarrow> panic + (MetricsSnapshot \<times> heap)" where
  "Snapshot impl h m =
     (let snapshot = \<lparr> SpansReceived = spansReceived m, SpansProcessed = spansProcessed m,
                        SpansDropped = spansDropped m, SpansExported = spansExported m,
                        ExportErrors = exportErrors m,
                        LatencyP50 = 0, LatencyP95 = 0, LatencyP99 = 0 \<rparr>;
          times = cells h (processingTimes m)
      in if 0 < length times then
           (case alloc h (replicate (length times) 0) of (sorted_addr, h1) \<Rightarrow>
              let h2 = store h1 sorted_addr (take (length (cells h1 sorted_addr)) times);
                  h3 = store h2 sorted_addr
                         (sort_outer (cells h2 sorted_addr) 0 (length (cells h2 sorted_addr)));
                  s = cells h3 sorted_addr;
                  n = length s
              in case index_at s (int n div 2) of Inl e \<Rightarrow> Inl e | Inr p50 \<Rightarrow>
                 (case index_at s (percentile_index impl (95 / 100) n) of Inl e \<Rightarrow> Inl e
                  | Inr p95 \<Rightarrow>
                 (case index_at s (percentile_index impl (99 / 100) n) of Inl e \<Rightarrow> Inl e
                  | Inr p99 \<Rightarrow>
                    Inr (snapshot\<lparr>LatencyP50 := p50, LatencyP95 := p95, LatencyP99 := p99\<rparr>,
                         h3))))
         else Inr (snapshot, h))"

definition DropRate :: "MetricsSnapshot \<Rightarrow> float64" where
  "DropRate s =
     (if SpansReceived s = 0 then Fin 0
      else f64_mul (f64_div (float64_of_uint64 (SpansDropped s))
                            (float64_of_uint64 (SpansReceived s))) (f64_const 100))"

definition ErrorRate :: "MetricsSnapshot \<Rightarrow> float64" where
  "ErrorRate s =
     (if SpansExported s = 0 then Fin 0
      else f64_mul (f64_div (float64_of_uint64 (ExportErrors s))
                            (float64_of_uint64 (SpansExported s))) (f64_const 100))"

datatype HealthStatus = HealthStatusHealthy | HealthStatusDegraded | HealthStatusUnhealthy

text \<open>Of the health check, the four thresholds; the HTTP server is not modelled.\<close>

record HealthCheck =
  dropRateWarning :: float64
  dropRateCritical :: float64
  errorRateWarning :: float64
  errorRateCritical :: float64

record HealthCheckConfig =
  Addr :: string
  DropRateWarning :: float64
  DropRateCritical :: float64
  ErrorRateWarning :: float64
  ErrorRateCritical :: float64

definition DefaultHealthCheckConfig :: HealthCheckConfig where
  "DefaultHealthCheckConfig =
     \<lparr> Addr = '':8888'', DropRateWarning = f64_const 1, DropRateCritical = f64_const 5,
       ErrorRateWarning = f64_const 2, ErrorRateCritical = f64_const 10 \<rparr>"

definition NewHealthCheck :: "HealthCheckConfig \<Rightarrow> HealthCheck" where
  "NewHealthCheck config =
     \<lparr> dropRateWarning = DropRateWarning config, dropRateCritical = DropRateCritical config,
       errorRateWarning = ErrorRateWarning config, errorRateCritical = ErrorRateCritical config \<rparr>"

definition determineStatus :: "HealthCheck \<Rightarrow> MetricsSnapshot \<Rightarrow> HealthStatus" where
  "determineStatus h snapshot =
     (let dropRate = DropRate snapshot; errorRate = ErrorRate snapshot in
      if f64_ge dropRate (dropRateCritical h) \<or> f64_ge errorRate (errorRateCritical h)
        then HealthStatusUnhealthy
      else if f64_ge dropRate (dropRateWarning h) \<or> f64_ge errorRate (errorRateWarning h)
        then HealthStatusDegraded
      else HealthStatusHealthy)"

section \<open>The batch stage (processor/batch.go)\<close>

record BatchProcessor =
  timeout :: Duration
  batchSize :: int
  sendBatchSize :: int

record BatchConfig =
  Timeout :: Duration
  BatchSize :: int
  SendBatchSize :: int

definition DefaultBatchConfig :: BatchConfig where
  "DefaultBatchConfig = \<lparr> Timeout = 1000000000, BatchSize = 8192, SendBatchSize = 1024 \<rparr>"

definition NewBatchProcessor :: "BatchConfig \<Rightarrow> BatchProcessor" where
  "NewBatchProcessor config =
     \<lparr> timeout = Timeout config, batchSize = BatchSize config,
       sendBatchSize = SendBatchSize config \<rparr>"

text \<open>
  The goroutine of \<^verbatim>\<open>Process\<close> is driven by what its \<^verbatim>\<open>select\<close> receives: a span
  from the input channel, the closing of the input channel, a tick of the timer, or
  the cancellation of the context. A run is a list of these events. Each event
  carries the point at which the context is found cancelled should the event start
  a flush: \<open>None\<close> when every send of the flush goes through, \<open>Some k\<close> when the
  \<^verbatim>\<open>select\<close> inside \<^verbatim>\<open>flush\<close> takes \<^verbatim>\<open>ctx.Done()\<close> in place of sending the span at
  index \<open>k\<close>.
\<close>

datatype event = InSpan Span | InClosed | TickerC | CtxDone

type_synonym schedule = "(event \<times> nat option) list"

text \<open>
  \<^verbatim>\<open>flush\<close> returns the spans it sent to \<^verbatim>\<open>out\<close> and the batch it leaves: empty
  after the loop has run to its end, untouched when it returned early.
\<close>

definition flush :: "nat option \<Rightarrow> Span list \<Rightarrow> Span list \<times> Span list" where
  "flush c batch =
     (case c of
        None \<Rightarrow> (batch, [])
      | Some k \<Rightarrow> if k < length batch then (take k batch, batch) else (batch, []))"

text \<open>What the stage does to its output channel: the sends of one flush, or the close.\<close>

datatype out_event = Sent "Span list" | OutClosed

fun batch_loop :: "int \<Rightarrow> Span list \<Rightarrow> schedule \<Rightarrow> out_event list" where
  "batch_loop n batch [] = []"
| "batch_loop n batch ((InSpan s, c) # es) =
     (let b = batch @ [s] in
      if n \<le> int (length b) then Sent (fst (flush c b)) # batch_loop n (snd (flush c b)) es
      else batch_loop n b es)"
| "batch_loop n batch ((InClosed, c) # es) =
     (if 0 < length batch then [Sent (fst (flush c batch)), OutClosed] else [OutClosed])"
| "batch_loop n batch ((TickerC, c) # es) =
     (if 0 < length batch then Sent (fst (flush c batch)) # batch_loop n (snd (flush c batch)) es
      else batch_loop n batch es)"
| "batch_loop n batch ((CtxDone, c) # es) = [OutClosed]"

text \<open>
  \<^verbatim>\<open>make\<close> fails on a negative size and on a size that is too large: the runtime
  panics when the size in bytes of the buffer overflows or passes its allocation
  limit, and the program dies when the memory is not there. The largest sizes with
  which \<^verbatim>\<open>make\<close> returns depend on the platform and on its memory, so they are
  parameters of the model: one for a channel of span pointers, one for a slice of
  span pointers. A size above them is reported as the panic of \<^verbatim>\<open>make\<close>.
\<close>

record make_limits =
  max_chan_size :: int
  max_slice_cap :: int

text \<open>
  An instance, with memory for whatever passes the range checks of the gc runtime on
  linux/amd64: a buffer may take \<open>2 ^ 48\<close> bytes, for a channel less the 96 bytes of
  its header, and a span pointer takes 8 bytes.
\<close>

definition limits_linux_amd64 :: make_limits where
  "limits_linux_amd64 = \<lparr> max_chan_size = (2 ^ 48 - 96) div 8, max_slice_cap = 2 ^ 48 div 8 \<rparr>"

text \<open>
  \<^verbatim>\<open>Process\<close> of the batch stage: \<^verbatim>\<open>make(chan *model.Span, p.batchSize)\<close>, then in the
  goroutine \<^verbatim>\<open>make([]*model.Span, 0, p.sendBatchSize)\<close> and \<^verbatim>\<open>time.NewTicker(p.timeout)\<close>,
  which panics on a period that is not positive, then the loop.
\<close>

definition Process_batch :: "make_limits \<Rightarrow> BatchProcessor \<Rightarrow> schedule \<Rightarrow> panic + out_event list" where
  "Process_batch lims p sched =
     (if batchSize p < 0 \<or> max_chan_size lims < batchSize p then Inl MakeChanSizeOutOfRange
      else if sendBatchSize p < 0 \<or> max_slice_cap lims < sendBatchSize p
           then Inl MakeSliceCapOutOfRange
      else if timeout p \<le> 0 then Inl NonPositiveTickerInterval
      else Inr (batch_loop (sendBatchSize p) [] sched))"

text \<open>The spans a run has put on the output channel, in the order of the sends.\<close>

fun sent_spans :: "out_event list \<Rightarrow> Span list" where
  "sent_spans [] = []"
| "sent_spans (Sent xs # os) = xs @ sent_spans os"
| "sent_spans (OutClosed # os) = sent_spans os"

section \<open>The attribute stage (processor/attributes.go)\<close>

type_synonym ActionType = string

definition Insert :: ActionType where "Insert = ''insert''"
definition Update :: ActionType where "Update = ''update''"
definition Upsert :: ActionType where "Upsert = ''upsert''"
definition Delete :: ActionType where "Delete = ''delete''"

record AttributeAction =
  Key :: string
  Value :: string
  Action :: ActionType

text \<open>The search for the existing tag: the index of the first tag with the key, or \<open>- 1\<close>.\<close>

fun find_tag :: "string \<Rightarrow> KeyValue list \<Rightarrow> nat \<Rightarrow> int" where
  "find_tag k [] i = - 1"
| "find_tag k (tag # rest) i = (if KeyValue.Key tag = k then int i else find_tag k rest (i + 1))"

text \<open>The tag every rule writes: the composite literal sets three fields, the rest are zero.\<close>

definition string_tag :: "AttributeAction \<Rightarrow> KeyValue" where
  "string_tag action =
     \<lparr> KeyValue.Key = AttributeAction.Key action, VType = StringType, VStr = Value action,
       VInt64 = 0, VFloat64 = Fin 0, VBool = False, VBinary = [] \<rparr>"

definition applyAction :: "Span \<Rightarrow> AttributeAction \<Rightarrow> Span" where
  "applyAction sp action =
     (let existingIdx = find_tag (AttributeAction.Key action) (Tags sp) 0 in
      if Action action = Insert then
        (if existingIdx = - 1 then sp\<lparr>Tags := Tags sp @ [string_tag action]\<rparr> else sp)
      else if Action action = Update then
        (if 0 \<le> existingIdx then sp\<lparr>Tags := (Tags sp)[nat existingIdx := string_tag action]\<rparr>
         else sp)
      else if Action action = Upsert then
        (if 0 \<le> existingIdx then sp\<lparr>Tags := (Tags sp)[nat existingIdx := string_tag action]\<rparr>
         else sp\<lparr>Tags := Tags sp @ [string_tag action]\<rparr>)
      else if Action action = Delete then
        (if 0 \<le> existingIdx
         then sp\<lparr>Tags := take (nat existingIdx) (Tags sp) @ drop (nat existingIdx + 1) (Tags sp)\<rparr>
         else sp)
      else sp)"

text \<open>The stage applies its actions to a span in their order.\<close>

definition apply_actions :: "AttributeAction list \<Rightarrow> Span \<Rightarrow> Span" where
  "apply_actions actions sp = foldl applyAction sp actions"


section \<open>Runs and inputs used in the statements\<close>

text \<open>A run of recordings on the sampling counters, as the package's test makes it.\<close>

definition record_samples :: "SamplingProcessor \<Rightarrow> bool list \<Rightarrow> SamplingProcessor" where
  "record_samples p bs = foldl recordSample p bs"

text \<open>The spans a schedule delivers on the input channel, in their order.\<close>

fun received :: "schedule \<Rightarrow> Span list" where
  "received [] = []"
| "received ((InSpan s, c) # es) = s # received es"
| "received ((e, c) # es) = received es"

text \<open>
  A schedule on which the context is never cancelled, neither in the loop nor inside
  a flush, and on which the input channel stays open.
\<close>

definition uncancelled :: "schedule \<Rightarrow> bool" where
  "uncancelled es = (\<forall>(e, c)\<in>set es. c = None \<and> e \<noteq> CtxDone \<and> e \<noteq> InClosed)"

text \<open>The tags and spans of the package's sampling tests.\<close>

definition error_tag :: KeyValue where
  "error_tag = \<lparr> KeyValue.Key = ''error'', VType = BoolType, VStr = [], VInt64 = 0,
                  VFloat64 = Fin 0, VBool = True, VBinary = [] \<rparr>"

definition status_tag :: "int \<Rightarrow> KeyValue" where
  "status_tag code = \<lparr> KeyValue.Key = ''http.status_code'', VType = Int64Type, VStr = [],
                        VInt64 = code, VFloat64 = Fin 0, VBool = False, VBinary = [] \<rparr>"

definition test_span :: "uint64 \<Rightarrow> Duration \<Rightarrow> KeyValue list \<Rightarrow> Span" where
  "test_span low d tags =
     \<lparr> TraceID = \<lparr> High = 1, Low = low \<rparr>, SpanID = 123, ParentSpanID = 0,
       OperationName = [], Flags = 0, Duration = d, Tags = tags \<rparr>"

text \<open>A snapshot with the given received, dropped, exported and export-error counts.\<close>

definition counters_snapshot :: "uint64 \<Rightarrow> uint64 \<Rightarrow> uint64 \<Rightarrow> uint64 \<Rightarrow> MetricsSnapshot" where
  "counters_snapshot r d e x =
     \<lparr> SpansReceived = r, SpansProcessed = 0, SpansDropped = d, SpansExported = e,
       ExportErrors = x, LatencyP50 = 0, LatencyP95 = 0, LatencyP99 = 0 \<rparr>"

definition empty_heap :: heap where
  "empty_heap = \<lparr> cells = (\<lambda>a. []), next_free = 0 \<rparr>"

section \<open>Rounding: exponent, error bounds, exact cases\<close>

lemma pow2_powr: "pow2 e = 2 powr (of_int e)"
proof (cases "0 \<le> e")
  case True
  then have "pow2 e = 2 ^ nat e" by (simp add: pow2_def)
  also have "\<dots> = 2 powr (real (nat e))" by (simp add: powr_realpow)
  finally show ?thesis using True by simp
next
  case False
  then have "pow2 e = 1 / 2 ^ nat (- e)" by (simp add: pow2_def)
  also have "\<dots> = 1 / 2 powr (real (nat (- e)))" by (simp add: powr_realpow)
  also have "\<dots> = 2 powr (- real (nat (- e)))" by (simp add: powr_minus divide_inverse)
  finally show ?thesis using False by simp
qed

lemma pow2_pos [simp]: "0 < pow2 e"
  by (simp add: pow2_powr)

lemma pow2_nonneg [simp]: "0 \<le> pow2 e"
  by (simp add: pow2_powr)

lemma pow2_neq0 [simp]: "pow2 e \<noteq> 0"
  using pow2_pos[of e] by linarith

lemma abs_pow2 [simp]: "\<bar>pow2 e\<bar> = pow2 e"
  by simp

lemma pow2_add: "pow2 (a + b) = pow2 a * pow2 b"
  by (simp add: pow2_powr powr_add)

lemma pow2_mono: "a \<le> b \<Longrightarrow> pow2 a \<le> pow2 b"
  by (simp add: pow2_powr)

lemma pow2_nonneg_int: "0 \<le> e \<Longrightarrow> pow2 e = of_int (2 ^ nat e)"
  by (simp add: pow2_def)

lemma log2floor_bounds:
  "1 \<le> n \<Longrightarrow> 0 \<le> log2floor n \<and> 2 ^ nat (log2floor n) \<le> n \<and> n < 2 ^ nat (log2floor n + 1)"
proof (induction n rule: log2floor.induct)
  case (1 n)
  show ?case
  proof (cases "n < 2")
    case True
    with 1 have "n = 1" by simp
    then show ?thesis by (simp add: log2floor.simps)
  next
    case False
    then have h: "1 \<le> n div 2" by simp
    from 1(1)[OF False h]
    have ih: "0 \<le> log2floor (n div 2)" "2 ^ nat (log2floor (n div 2)) \<le> n div 2"
      "n div 2 < 2 ^ nat (log2floor (n div 2) + 1)" by simp_all
    have eq: "log2floor n = 1 + log2floor (n div 2)"
      using False by (subst log2floor.simps) simp
    have n1: "nat (1 + log2floor (n div 2)) = Suc (nat (log2floor (n div 2)))"
      using ih(1) by simp
    have n2: "nat (1 + log2floor (n div 2) + 1) = Suc (Suc (nat (log2floor (n div 2))))"
      using ih(1) by simp
    have n3: "nat (log2floor (n div 2) + 1) = Suc (nat (log2floor (n div 2)))"
      using ih(1) by simp
    have a: "2 * 2 ^ nat (log2floor (n div 2)) \<le> n" using ih(2) by linarith
    have b: "n < 2 * (2 * 2 ^ nat (log2floor (n div 2)))" using ih(3) unfolding n3 by simp
    show ?thesis unfolding eq n1 n2 using ih(1) a b by simp
  qed
qed

lemma log2ceil_bounds:
  "1 \<le> n \<Longrightarrow> 0 \<le> log2ceil n \<and> n \<le> 2 ^ nat (log2ceil n)
     \<and> (2 \<le> n \<longrightarrow> 2 ^ nat (log2ceil n - 1) < n)"
proof (induction n rule: log2ceil.induct)
  case (1 n)
  show ?case
  proof (cases "n < 2")
    case True
    with 1 have "n = 1" by simp
    then show ?thesis by (simp add: log2ceil.simps)
  next
    case False
    define m where "m = (n + 1) div 2"
    have h: "1 \<le> m" using False by (simp add: m_def)
    from 1(1)[OF False] h
    have ih: "0 \<le> log2ceil m" "m \<le> 2 ^ nat (log2ceil m)"
      "2 \<le> m \<longrightarrow> 2 ^ nat (log2ceil m - 1) < m" by (simp_all add: m_def)
    have eq: "log2ceil n = 1 + log2ceil m"
      using False by (subst log2ceil.simps) (simp add: m_def)
    have n1: "nat (1 + log2ceil m) = Suc (nat (log2ceil m))"
      using ih(1) by simp
    have n2: "nat (1 + log2ceil m - 1) = nat (log2ceil m)" by simp
    have nm: "n \<le> 2 * m" "2 * m \<le> n + 1" by (simp_all add: m_def)
    have a: "n \<le> 2 * 2 ^ nat (log2ceil m)" using ih(2) nm by linarith
    have b: "(2::int) ^ nat (log2ceil m) < n"
    proof (cases "2 \<le> m")
      case True
      with ih(3) have lt: "(2::int) ^ nat (log2ceil m - 1) < m" by simp
      have "0 < log2ceil m"
      proof (rule ccontr)
        assume "\<not> 0 < log2ceil m"
        with ih(1) have "log2ceil m = 0" by simp
        with ih(2) True show False by simp
      qed
      then have "nat (log2ceil m) = Suc (nat (log2ceil m - 1))" by simp
      then have "(2::int) ^ nat (log2ceil m) = 2 * 2 ^ nat (log2ceil m - 1)" by simp
      with lt nm show ?thesis by linarith
    next
      case False
      with h have "m = 1" by simp
      then have "log2ceil m = 0" by (simp add: log2ceil.simps)
      with \<open>\<not> n < 2\<close> show ?thesis by simp
    qed
    show ?thesis unfolding eq n1 n2 using ih(1) a b by simp
  qed
qed

lemma ilog2_bounds:
  assumes "0 < a"
  shows "pow2 (ilog2 a) \<le> a" and "a < pow2 (ilog2 a + 1)"
proof -
  have "pow2 (ilog2 a) \<le> a \<and> a < pow2 (ilog2 a + 1)"
  proof (cases "1 \<le> a")
    case True
    define n where "n = \<lfloor>a\<rfloor>"
    have n1: "1 \<le> n" using True by (simp add: n_def)
    note b = log2floor_bounds[OF n1]
    have eq: "ilog2 a = log2floor n" using True by (simp add: ilog2_def n_def)
    have "of_int (2 ^ nat (log2floor n)) \<le> (of_int n :: real)" using b by (simp only: of_int_le_iff)
    moreover have "0 \<le> log2floor n" using b by simp
    ultimately have "pow2 (log2floor n) \<le> of_int n" by (simp only: pow2_nonneg_int)
    moreover have "of_int n \<le> a" by (simp add: n_def)
    ultimately have lo: "pow2 (log2floor n) \<le> a" by linarith
    have "n + 1 \<le> 2 ^ nat (log2floor n + 1)" using b by linarith
    then have "of_int (n + 1) \<le> (of_int (2 ^ nat (log2floor n + 1)) :: real)" by (simp only: of_int_le_iff)
    moreover have "0 \<le> log2floor n + 1" using b by simp
    ultimately have "of_int (n + 1) \<le> pow2 (log2floor n + 1)" by (simp only: pow2_nonneg_int)
    moreover have "a < of_int (n + 1)" by (simp add: n_def)
    ultimately have hi: "a < pow2 (log2floor n + 1)" by linarith
    show ?thesis unfolding eq using lo hi by simp
  next
    case False
    define x where "x = 1 / a"
    have x1: "1 < x" using False assms by (simp add: x_def)
    define n where "n = \<lceil>x\<rceil>"
    have n2: "2 \<le> n" using x1 by (simp add: n_def)
    then have n1: "1 \<le> n" by simp
    note b = log2ceil_bounds[OF n1]
    define c where "c = log2ceil n"
    have c0: "0 \<le> c" using b by (simp add: c_def)
    have eq: "ilog2 a = - c" using False by (simp add: ilog2_def n_def x_def c_def)
    have "x \<le> of_int n" by (simp add: n_def)
    moreover have "(of_int n :: real) \<le> of_int (2 ^ nat c)" using b unfolding c_def by (simp only: of_int_le_iff)
    then have "(of_int n :: real) \<le> pow2 c" using c0 by (simp only: pow2_nonneg_int)
    ultimately have xle: "x \<le> pow2 c" by linarith
    have cpos: "0 < c"
    proof (rule ccontr)
      assume "\<not> 0 < c"
      with c0 have "c = 0" by simp
      with b n2 show False by (simp add: c_def)
    qed
    have "2 ^ nat (c - 1) < n" using b n2 by (simp add: c_def)
    then have "of_int (2 ^ nat (c - 1)) < x" unfolding n_def by (simp only: less_ceiling_iff)
    moreover have "0 \<le> c - 1" using cpos by simp
    ultimately have xgt: "pow2 (c - 1) < x" by (simp only: pow2_nonneg_int)
    have inv: "pow2 (- c) = 1 / pow2 c"
      using pow2_add[of c "- c"] by (simp add: pow2_def field_simps)
    have inv2: "pow2 (- c + 1) = 1 / pow2 (c - 1)"
      using pow2_add[of "c - 1" "- c + 1"] by (simp add: pow2_def field_simps)
    have lo: "pow2 (- c) \<le> a" unfolding inv using xle assms by (simp add: x_def field_simps)
    have hi: "a < pow2 (- c + 1)" unfolding inv2 using xgt assms by (simp add: x_def field_simps)
    show ?thesis unfolding eq using lo hi by simp
  qed
  then show "pow2 (ilog2 a) \<le> a" and "a < pow2 (ilog2 a + 1)" by simp_all
qed

lemma round_half_even_err: "\<bar>of_int (round_half_even y) - y\<bar> \<le> 1 / 2"
  unfolding round_half_even_def by (auto simp: abs_le_iff)

lemma round_half_even_near:
  assumes "\<bar>y - of_int i\<bar> < 1 / 2"
  shows "round_half_even y = i"
proof -
  have "\<bar>of_int (round_half_even y) - (of_int i :: real)\<bar> < 1"
    using round_half_even_err[of y] assms by linarith
  then have "\<bar>of_int (round_half_even y - i) :: real\<bar> < 1" by simp
  then have "\<bar>round_half_even y - i\<bar> < 1" 
    by (metis of_int_abs of_int_less_1_iff)
  then show ?thesis by simp
qed


lemma pow2_strict_mono: "a < b \<Longrightarrow> pow2 a < pow2 b"
  by (simp add: pow2_powr)

lemma pow2_le_imp: "pow2 a \<le> pow2 b \<Longrightarrow> a \<le> b"
  by (simp add: pow2_powr)

lemma pow2_less_imp: "pow2 a < pow2 b \<Longrightarrow> a < b"
  by (simp add: pow2_powr)

lemma ilog2_ge: "0 < x \<Longrightarrow> pow2 k \<le> x \<Longrightarrow> k \<le> ilog2 x"
proof -
  assume "0 < x" "pow2 k \<le> x"
  then have "pow2 k < pow2 (ilog2 x + 1)" using ilog2_bounds(2)[of x] by linarith
  then show ?thesis using pow2_less_imp by fastforce
qed

lemma ilog2_less: "0 < x \<Longrightarrow> x < pow2 k \<Longrightarrow> ilog2 x < k"
proof -
  assume "0 < x" "x < pow2 k"
  then have "pow2 (ilog2 x) < pow2 k" using ilog2_bounds(1)[of x] by linarith
  then show ?thesis by (rule pow2_less_imp)
qed

lemma round_to_err: "\<bar>round_to e a - a\<bar> \<le> pow2 e / 2"
proof -
  define y where "y = a / pow2 e"
  have nz: "pow2 e \<noteq> 0" by simp
  have a: "a = y * pow2 e" by (simp add: y_def nz)
  have "\<bar>of_int (round_half_even y) - y\<bar> * pow2 e \<le> 1 / 2 * pow2 e"
    by (rule mult_right_mono[OF round_half_even_err]) simp
  moreover have "\<bar>round_to e a - a\<bar> = \<bar>of_int (round_half_even y) - y\<bar> * pow2 e"
  proof -
    have "round_to e a - a = (of_int (round_half_even y) - y) * pow2 e"
      unfolding round_to_def y_def[symmetric] using a by (simp add: algebra_simps)
    then show ?thesis by (simp add: abs_mult)
  qed
  ultimately show ?thesis by simp
qed

lemma pow2_numeral_eval: "pow2 1024 = 2 ^ 1024" "pow2 1023 = 2 ^ 1023" "pow2 (- 1074) = 1 / 2 ^ 1074"
  "pow2 (- 1022) = 1 / 2 ^ 1022" "pow2 (- 52) = 1 / 2 ^ 52" "pow2 (- 1) = 1 / 2" "pow2 52 = 2 ^ 52"
  "pow2 0 = 1" "pow2 1 = 2" "pow2 53 = 2 ^ 53"
  by (simp_all add: pow2_def)

lemma f64_exponent_pow2_le:
  assumes "0 < x"
  shows "pow2 (f64_exponent x) \<le> max (x / 2 ^ 52) (pow2 (- 1074))"
proof (cases "- 1074 \<le> ilog2 x - 52")
  case True
  then have "f64_exponent x = ilog2 x - 52" by (simp add: f64_exponent_def)
  moreover have "pow2 (ilog2 x - 52) = pow2 (ilog2 x) * pow2 (- 52)"
    using pow2_add[of "ilog2 x" "- 52"] by simp
  moreover have "pow2 (ilog2 x) \<le> x" using assms by (rule ilog2_bounds)
  ultimately have "pow2 (f64_exponent x) \<le> x / 2 ^ 52"
    by (simp add: pow2_numeral_eval)
  then show ?thesis by simp
next
  case False
  then have "f64_exponent x = - 1074" by (simp add: f64_exponent_def)
  then show ?thesis by simp
qed

lemma round_f64_pos:
  assumes "0 < x" "x \<le> pow2 1023"
  shows "round_f64 x = Fin (round_to (f64_exponent x) x)"
proof -
  define P where "P = pow2 1023"
  define A where "A = x / 2 ^ 52"
  define B where "B = pow2 (- 1074)"
  define p where "p = pow2 (f64_exponent x)"
  define r where "r = round_to (f64_exponent x) x"
  have P2: "pow2 1024 = 2 * P" using pow2_add[of 1023 1] by (simp add: P_def pow2_numeral_eval(9))
  have P1: "2 \<le> P" using pow2_mono[of 1 1023] by (simp add: P_def pow2_numeral_eval(9))
  have "\<bar>r - x\<bar> \<le> p / 2" unfolding r_def p_def by (rule round_to_err)
  moreover have "p \<le> max A B"
    unfolding p_def A_def B_def using assms(1) by (rule f64_exponent_pow2_le)
  moreover have "A \<le> x" using assms(1) by (simp add: A_def field_simps)
  moreover have "B \<le> 1" using pow2_mono[of "- 1074" 0] by (simp add: B_def pow2_numeral_eval(8))
  moreover have "x \<le> P" using assms(2) by (simp add: P_def)
  ultimately have "r < 2 * P"
    using assms(1) P1 by linarith
  then have "round_to (f64_exponent x) x < pow2 1024" by (simp add: r_def P2)
  then show ?thesis using assms(1) by (simp add: round_f64_def)
qed

lemma round_f64_error:
  assumes "0 < x" "x \<le> pow2 1023"
  shows "\<exists>r. round_f64 x = Fin r \<and> \<bar>r - x\<bar> \<le> max (x / 2 ^ 53) (1 / 2 ^ 1075)"
proof -
  have "\<bar>round_to (f64_exponent x) x - x\<bar> \<le> pow2 (f64_exponent x) / 2" by (rule round_to_err)
  moreover have "pow2 (f64_exponent x) \<le> max (x / 2 ^ 52) (pow2 (- 1074))"
    using assms(1) by (rule f64_exponent_pow2_le)
  ultimately have "\<bar>round_to (f64_exponent x) x - x\<bar> \<le> max (x / 2 ^ 53) (1 / 2 ^ 1075)"
    by (simp add: pow2_numeral_eval max_def split: if_splits)
  then show ?thesis using round_f64_pos[OF assms] by blast
qed

lemma round_f64_relative:
  assumes "1 / 2 ^ 1022 \<le> x" "x \<le> pow2 1023"
  shows "\<exists>r. round_f64 x = Fin r \<and> \<bar>r - x\<bar> \<le> x / 2 ^ 53"
proof -
  have pos: "0 < x" using assms(1) by (smt (verit) divide_pos_pos zero_less_numeral zero_less_power)
  have "max (x / 2 ^ 53) (1 / 2 ^ 1075) = x / 2 ^ 53" using assms(1) by (simp add: max_def field_simps)
  then show ?thesis using round_f64_error[OF pos assms(2)] by simp
qed

text \<open>A number within a quarter of an ulp of an integer rounds to that integer.\<close>

lemma round_f64_near_int:
  assumes "1 \<le> x" "x < 2 ^ 52" "\<bar>x - of_int k\<bar> < x / 2 ^ 54"
  shows "round_f64 x = Fin (of_int k)"
proof -
  have pos: "0 < x" using assms(1) by simp
  define e where "e = ilog2 x - 52"
  have "pow2 0 \<le> x" using assms(1) by (simp add: pow2_numeral_eval)
  then have l0: "0 \<le> ilog2 x" using pos by (rule ilog2_ge[rotated])
  have "x < pow2 52" using assms(2) by (simp add: pow2_numeral_eval)
  then have l52: "ilog2 x < 52" using pos by (rule ilog2_less[rotated])
  have fe: "f64_exponent x = e" using l0 by (simp add: f64_exponent_def e_def)
  have eneg: "e < 0" "- 52 \<le> e" using l0 l52 by (simp_all add: e_def)
  define i where "i = k * 2 ^ nat (- e)"
  have pe: "pow2 e = 1 / 2 ^ nat (- e)" using eneg by (simp add: pow2_def)
  have ki: "of_int k / pow2 e = of_int i" by (simp add: pe i_def)
  have "x < pow2 (ilog2 x + 1)" using pos by (rule ilog2_bounds)
  moreover have e53: "ilog2 x + 1 = e + 53" by (simp add: e_def)
  have "pow2 (e + 53) = pow2 e * pow2 53" by (rule pow2_add)
  then have "pow2 (ilog2 x + 1) = pow2 e * 2 ^ 53"
    by (simp only: e53 pow2_numeral_eval(10))
  ultimately have xb: "x < pow2 e * 2 ^ 53" by simp
  have "\<bar>x / pow2 e - of_int i\<bar> = \<bar>x - of_int k\<bar> / pow2 e"
    unfolding ki[symmetric] by (simp add: diff_divide_distrib[symmetric] abs_divide)
  also have "\<dots> < (x / 2 ^ 54) / pow2 e"
    by (rule divide_strict_right_mono[OF assms(3) pow2_pos])
  also have "\<dots> < 1 / 2"
    using xb by (simp add: field_simps)
  finally have "round_half_even (x / pow2 e) = i" by (rule round_half_even_near)
  then have rt: "round_to e x = of_int k" by (simp add: round_to_def ki[symmetric])
  have "x \<le> pow2 1023" using assms(2) by (simp add: pow2_numeral_eval)
  from round_f64_pos[OF pos this] show ?thesis by (simp add: fe rt)
qed

lemma float64_of_int_exact:
  assumes "0 \<le> n" "n < 2 ^ 52"
  shows "float64_of_int n = Fin (of_int n)"
proof (cases "n = 0")
  case True
  then show ?thesis by (simp add: float64_of_int_def round_f64_def)
next
  case False
  with assms have "1 \<le> (of_int n :: real)" by simp
  moreover have "(of_int n :: real) < 2 ^ 52" using assms(2) by (metis of_int_less_iff of_int_numeral of_int_power)
  moreover have "\<bar>(of_int n :: real) - of_int n\<bar> < of_int n / 2 ^ 54" using \<open>1 \<le> of_int n\<close> by simp
  ultimately show ?thesis unfolding float64_of_int_def by (rule round_f64_near_int)
qed


subsection \<open>Evaluating the float operations on literals\<close>

lemmas f64_eval = round_f64_def f64_exponent_def round_to_def ilog2_def round_half_even_def
  pow2_def log2floor.simps log2ceil.simps

lemma f64_const_values:
  "f64_const 0 = Fin 0" "f64_const 1 = Fin 1" "f64_const 2 = Fin 2" "f64_const (3 / 2) = Fin (3 / 2)"
  "f64_const 5 = Fin 5" "f64_const 10 = Fin 10" "f64_const 100 = Fin 100"
  by (simp_all add: f64_const_def f64_eval)

lemma f64_const_fractions:
  "f64_const (5 / 100) = Fin (3602879701896397 / 72057594037927936)"
  "f64_const (1 / 100) = Fin (5764607523034235 / 576460752303423488)"
  "f64_const (95 / 100) = Fin (4278419646001971 / 4503599627370496)"
  "f64_const (99 / 100) = Fin (4458563631096791 / 4503599627370496)"
  "f64_const (1 / 10) = Fin (3602879701896397 / 36028797018963968)"
  by (simp_all add: f64_const_def f64_eval)

lemma f64_const_normal_forms:
  "f64_const (1 / 20) = Fin (3602879701896397 / 72057594037927936)"
  "f64_const (19 / 20) = Fin (4278419646001971 / 4503599627370496)"
  using f64_const_fractions(1,3) by simp_all

lemma round_f64_powers:
  "round_f64 18446744073709551615 = Fin 18446744073709551616"
  "round_f64 18446744073709551616 = Fin 18446744073709551616"
  "round_f64 9223372036854775808 = Fin 9223372036854775808"
  by (simp_all add: f64_eval)

lemma uint_max_uint64: "uint (NOT 0 :: 64 word) = 18446744073709551615"
  by (simp add: unsigned_minus_1_eq_mask mask_eq_exp_minus_1)

lemma float64_of_max_uint64: "float64_of_uint64 (NOT 0) = Fin 18446744073709551616"
  unfolding float64_of_uint64_def uint_max_uint64 using round_f64_powers(1) by simp

lemma threshold_rate_zero: "sample_threshold impl (Fin 0) = 0"
proof -
  have "f64_mul (float64_of_uint64 (NOT 0)) (Fin 0) = Fin 0"
    unfolding float64_of_max_uint64 by (simp add: round_f64_def)
  then show ?thesis
    unfolding sample_threshold_def by (simp add: uint64_of_float64_def trunc_def)
qed

lemma threshold_rate_one_amd64: "sample_threshold gc_amd64 (Fin 1) = 0x8000000000000000"
proof -
  have m: "f64_mul (float64_of_uint64 (NOT 0)) (Fin 1) = Fin 18446744073709551616"
    unfolding float64_of_max_uint64 using round_f64_powers(2) by simp
  have s: "f64_sub (Fin 18446744073709551616) (Fin (2 ^ 63)) = Fin 9223372036854775808"
    using round_f64_powers(3) by simp
  have c: "cvttsd2sq (Fin 9223372036854775808) = 0x8000000000000000"
    by (simp add: cvttsd2sq_def)
  have "to_uint64 gc_amd64 (Fin 18446744073709551616) = 0x8000000000000000"
    unfolding gc_amd64_def by (simp add: round_f64_powers(3) c)
  then show ?thesis
    unfolding sample_threshold_def m by (simp add: uint64_of_float64_def)
qed

lemma threshold_rate_one_arm64: "sample_threshold gc_arm64 (Fin 1) = - 1"
proof -
  have m: "f64_mul (float64_of_uint64 (NOT 0)) (Fin 1) = Fin 18446744073709551616"
    unfolding float64_of_max_uint64 using round_f64_powers(2) by simp
  show ?thesis
    unfolding sample_threshold_def m by (simp add: uint64_of_float64_def gc_arm64_def)
qed

lemma rate_one_keeps_all_on_arm64:
  "deterministicSample gc_arm64 tid (f64_const 1)"
  by (simp add: deterministicSample_def f64_const_values threshold_rate_one_arm64)

section \<open>The sampling decision\<close>

lemma isError_tags_iff:
  "isError_tags ts \<longleftrightarrow>
     (\<exists>t\<in>set ts. (KeyValue.Key t = ''error'' \<and> VType t = BoolType \<and> VBool t)
                  \<or> (KeyValue.Key t = ''http.status_code'' \<and> VType t = Int64Type \<and> 500 \<le> VInt64 t))"
  by (induction ts) auto



text \<open>
  C2. At a fixed rate the adaptive decision is a function of the low half of the
  trace identifier alone: the span is kept exactly when that half is at most the
  threshold \<^verbatim>\<open>uint64(float64(^uint64(0)) * rate)\<close>. Two spans of one trace get the same
  adaptive decision, also through \<^verbatim>\<open>shouldSample\<close> when neither is kept by the error
  or the latency rule and the adaptive rate is the same.
\<close>

theorem deterministicSample_trace_consistent:
  "deterministicSample impl tid rate
     = (Low tid \<le> uint64_of_float64 impl (f64_mul (float64_of_uint64 (NOT 0)) rate))
   \<and> (TraceID s1 = TraceID s2 \<longrightarrow>
        deterministicSample impl (TraceID s1) rate = deterministicSample impl (TraceID s2) rate)
   \<and> (TraceID s1 = TraceID s2 \<and> adaptiveRate p1 = adaptiveRate p2
        \<and> \<not> (alwaysSampleErrors p1 \<and> isError s1) \<and> \<not> slowThreshold p1 \<le> Duration s1
        \<and> \<not> (alwaysSampleErrors p2 \<and> isError s2) \<and> \<not> slowThreshold p2 \<le> Duration s2
        \<longrightarrow> fst (shouldSample impl p1 s1) = fst (shouldSample impl p2 s2))"
  by (simp add: deterministicSample_def sample_threshold_def shouldSample_def getAdaptiveRate_def
      Let_def)

theorem deterministicSample_trace_consistent_witness:
  "fst (shouldSample gc_amd64 (NewSamplingProcessor ''s'' DefaultSamplingConfig)
          (test_span 7 10 [status_tag 200]))
   = fst (shouldSample gc_amd64 (NewSamplingProcessor ''s'' DefaultSamplingConfig)
          ((test_span 7 20 [])\<lparr>SpanID := 456, OperationName := ''other''\<rparr>))"
  using deterministicSample_trace_consistent[of gc_amd64 _ _ 
      "test_span 7 10 [status_tag 200]"
      "(test_span 7 20 [])\<lparr>SpanID := 456, OperationName := ''other''\<rparr>"
      "NewSamplingProcessor ''s'' DefaultSamplingConfig"
      "NewSamplingProcessor ''s'' DefaultSamplingConfig"]
  by (simp add: NewSamplingProcessor_def DefaultSamplingConfig_def test_span_def
      status_tag_def isError_def Int64Type_def BoolType_def)

text \<open>
  C9. At rate 1.0 the threshold is \<^verbatim>\<open>uint64\<close> of the float \<open>2 ^ 64\<close>, which no
  \<^verbatim>\<open>uint64\<close> holds. With the conversion of the gc compiler on amd64 the threshold is
  \<open>2 ^ 63\<close>, and the span of the package's base-rate test is dropped once the low
  half of its trace identifier is above that: here \<^verbatim>\<open>0xFFFFFFFFFFFFFFFF\<close>.
\<close>

theorem rate_one_drops_high_trace_ids_on_amd64:
  "fst (shouldSample gc_amd64
         (NewSamplingProcessor ''test-sampler''
            (DefaultSamplingConfig\<lparr>BaseSampleRate := f64_const 1, AlwaysSampleErrors := False\<rparr>))
         (test_span 0xFFFFFFFFFFFFFFFF 10000000 [])) = False"
  by (simp add: shouldSample_def NewSamplingProcessor_def DefaultSamplingConfig_def test_span_def
      isError_def getAdaptiveRate_def deterministicSample_def f64_const_values
      threshold_rate_one_amd64 Let_def)

text \<open>
  C8. At rate 0.0 the threshold is 0 and the comparison is \<^verbatim>\<open>traceID.Low <= threshold\<close>,
  so the adaptive rule keeps the span whose trace identifier has a zero low half:
  with always-sample-errors on, no error tag and a duration under the slow threshold,
  the span below is kept.
\<close>

theorem rate_zero_keeps_low_zero:
  "fst (shouldSample gc_amd64
         (NewSamplingProcessor ''test-sampler''
            (DefaultSamplingConfig\<lparr>BaseSampleRate := f64_const 0\<rparr>))
         (test_span 0 50000000 [])) = True"
  by (simp add: shouldSample_def NewSamplingProcessor_def DefaultSamplingConfig_def test_span_def
      isError_def getAdaptiveRate_def deterministicSample_def f64_const_values
      threshold_rate_zero Let_def)

lemma recordSample_rate_zero:
  "baseSampleRate p = Fin 0 \<Longrightarrow> adaptiveRate p = Fin 0 \<Longrightarrow> adaptiveRate (recordSample p b) = Fin 0"
  by (simp add: recordSample_def Let_def min_f64_def f64_const_values round_f64_def)

text \<open>
  C8, as the code has it. With always-sample-errors on and the adaptive rate at 0.0,
  a span with an \<^verbatim>\<open>error=true\<close> boolean tag is kept, and a span that is neither an
  error nor slow is kept exactly when the low half of its trace identifier is zero: it
  is dropped for every other trace identifier. With the base rate at 0.0 the adaptive
  rate stays 0.0 through every recalculation.
\<close>

theorem rate_zero_sampling:
  "alwaysSampleErrors p \<and> adaptiveRate p = f64_const 0 \<longrightarrow>
     ((\<exists>t\<in>set (Tags sp). KeyValue.Key t = ''error'' \<and> VType t = BoolType \<and> VBool t)
        \<longrightarrow> fst (shouldSample impl p sp) = True)
     \<and> (\<not> isError sp \<and> Duration sp < slowThreshold p
        \<longrightarrow> fst (shouldSample impl p sp) = (Low (TraceID sp) = 0))
     \<and> (baseSampleRate p = f64_const 0 \<longrightarrow> adaptiveRate (recordSample p b) = f64_const 0)"
proof (intro impI, elim conjE)
  assume a: "alwaysSampleErrors p" and r: "adaptiveRate p = f64_const 0"
  have 1: "(\<exists>t\<in>set (Tags sp). KeyValue.Key t = ''error'' \<and> VType t = BoolType \<and> VBool t)
        \<longrightarrow> fst (shouldSample impl p sp) = True"
    using a by (auto simp: shouldSample_def isError_def isError_tags_iff)
  have 2: "\<not> isError sp \<and> Duration sp < slowThreshold p
        \<longrightarrow> fst (shouldSample impl p sp) = (Low (TraceID sp) = 0)"
    using r by (simp add: shouldSample_def getAdaptiveRate_def deterministicSample_def
        f64_const_values threshold_rate_zero Let_def)
  have 3: "baseSampleRate p = f64_const 0 \<longrightarrow> adaptiveRate (recordSample p b) = f64_const 0"
    using r recordSample_rate_zero[of p b] by (simp add: f64_const_values)
  show "((\<exists>t\<in>set (Tags sp). KeyValue.Key t = ''error'' \<and> VType t = BoolType \<and> VBool t)
        \<longrightarrow> fst (shouldSample impl p sp) = True)
     \<and> (\<not> isError sp \<and> Duration sp < slowThreshold p
        \<longrightarrow> fst (shouldSample impl p sp) = (Low (TraceID sp) = 0))
     \<and> (baseSampleRate p = f64_const 0 \<longrightarrow> adaptiveRate (recordSample p b) = f64_const 0)"
    using 1 2 3 by blast
qed

theorem rate_zero_sampling_witness:
  "fst (shouldSample gc_amd64
         (NewSamplingProcessor ''test-sampler'' (DefaultSamplingConfig\<lparr>BaseSampleRate := f64_const 0\<rparr>))
         (test_span 2 50000000 [error_tag])) = True
   \<and> fst (shouldSample gc_amd64
         (NewSamplingProcessor ''test-sampler'' (DefaultSamplingConfig\<lparr>BaseSampleRate := f64_const 0\<rparr>))
         (test_span 2 50000000 [status_tag 200])) = False"
  using rate_zero_sampling[of
      "NewSamplingProcessor ''test-sampler'' (DefaultSamplingConfig\<lparr>BaseSampleRate := f64_const 0\<rparr>)"
      "test_span 2 50000000 [error_tag]" gc_amd64]
    rate_zero_sampling[of
      "NewSamplingProcessor ''test-sampler'' (DefaultSamplingConfig\<lparr>BaseSampleRate := f64_const 0\<rparr>)"
      "test_span 2 50000000 [status_tag 200]" gc_amd64]
  by (simp add: NewSamplingProcessor_def DefaultSamplingConfig_def test_span_def error_tag_def
      status_tag_def isError_def BoolType_def Int64Type_def)

section \<open>The adaptive rate\<close>

lemma recordSample_below_window:
  "recentTotal p + 1 < adaptiveWindow p \<Longrightarrow>
   recordSample p b = p\<lparr>recentTotal := recentTotal p + 1,
                         recentErrors := recentErrors p + (if b then 1 else 0)\<rparr>"
  by (simp add: recordSample_def Let_def)

lemma recordSample_at_window:
  "adaptiveWindow p \<le> recentTotal p + 1 \<Longrightarrow>
   recordSample p b =
     p\<lparr>adaptiveRate :=
         (if f64_gt (f64_div (float64_of_int (recentErrors p + (if b then 1 else 0)))
                            (float64_of_int (recentTotal p + 1))) (f64_const (5 / 100))
          then min_f64 (f64_const 1) (f64_mul (baseSampleRate p) (f64_const 2))
          else if f64_gt (f64_div (float64_of_int (recentErrors p + (if b then 1 else 0)))
                                 (float64_of_int (recentTotal p + 1))) (f64_const (1 / 100))
          then min_f64 (f64_const 1) (f64_mul (baseSampleRate p) (f64_const (3 / 2)))
          else baseSampleRate p),
       recentErrors := 0, recentTotal := 0\<rparr>"
  by (simp add: recordSample_def Let_def)

lemma record_samples_snoc: "record_samples p (bs @ [b]) = recordSample (record_samples p bs) b"
  by (simp add: record_samples_def)

lemma record_samples_below_window:
  "recentTotal p + int (length bs) < adaptiveWindow p \<Longrightarrow>
   record_samples p bs = p\<lparr>recentTotal := recentTotal p + int (length bs),
                            recentErrors := recentErrors p + int (length (filter (\<lambda>x. x) bs))\<rparr>"
proof (induction bs rule: rev_induct)
  case Nil
  then show ?case by (simp add: record_samples_def)
next
  case (snoc b bs)
  then have ih: "record_samples p bs = p\<lparr>recentTotal := recentTotal p + int (length bs),
                            recentErrors := recentErrors p + int (length (filter (\<lambda>x. x) bs))\<rparr>"
    by simp
  show ?case
    unfolding record_samples_snoc ih using snoc.prems
    by (subst recordSample_below_window) simp_all
qed
lemma half_exceeds_five_percent:
  "f64_gt (f64_div (float64_of_int 50) (float64_of_int 100)) (f64_const (1 / 20))"
  by (simp add: float64_of_int_def f64_gt_def f64_const_normal_forms f64_eval)

lemma window_example_rate:
  assumes "AdaptiveWindow cfg = 100" "length bs = 100" "length (filter (\<lambda>x. x) bs) = 50"
  shows "adaptiveRate (record_samples (NewSamplingProcessor nm cfg) bs)
         = min_f64 (f64_const 1) (f64_mul (BaseSampleRate cfg) (f64_const 2))"
proof -
  from assms(2) obtain bs' b where bs: "bs = bs' @ [b]" by (cases bs rule: rev_cases) auto
  define p where "p = NewSamplingProcessor nm cfg"
  have p0: "recentTotal p = 0" "recentErrors p = 0" "adaptiveWindow p = 100"
    "baseSampleRate p = BaseSampleRate cfg"
    using assms(1) by (simp_all add: p_def NewSamplingProcessor_def)
  have len': "length bs' = 99" using assms(2) bs by simp
  have st: "record_samples p bs' = p\<lparr>recentTotal := 99,
                            recentErrors := int (length (filter (\<lambda>x. x) bs'))\<rparr>"
    using record_samples_below_window[of p bs'] p0 len' by simp
  define q where "q = record_samples p bs'"
  have q: "recentTotal q = 99" "recentErrors q = int (length (filter (\<lambda>x. x) bs'))"
    "adaptiveWindow q = 100" "baseSampleRate q = BaseSampleRate cfg"
    using p0 by (simp_all add: q_def st)
  have errs: "recentErrors q + (if b then 1 else 0) = 50"
    by (cases b) (use assms(3) q(2) in \<open>simp_all add: bs\<close>)
  have "adaptiveRate (recordSample q b)
        = min_f64 (f64_const 1) (f64_mul (BaseSampleRate cfg) (f64_const 2))"
    by (subst recordSample_at_window) (simp_all add: q(1,3,4) errs half_exceeds_five_percent)
  then show ?thesis by (simp add: bs record_samples_snoc p_def q_def)
qed

lemma doubled_rate_above:
  assumes "1 / 2 ^ 1074 \<le> b" "b < 1"
  shows "f64_gt (min_f64 (f64_const 1) (f64_mul (Fin b) (f64_const 2))) (Fin b)"
proof -
  have pos: "0 < b * 2" using assms(1) by (smt (verit) divide_pos_pos zero_less_numeral zero_less_power)
  have "(2::real) \<le> pow2 1023" using pow2_mono[of 1 1023] by (simp add: pow2_numeral_eval(9))
  then have le: "b * 2 \<le> pow2 1023" using assms(2) by linarith
  from round_f64_error[OF pos le] obtain r where
    r: "round_f64 (b * 2) = Fin r" "\<bar>r - b * 2\<bar> \<le> max (b * 2 / 2 ^ 53) (1 / 2 ^ 1075)" by blast
  have "(1::real) / 2 ^ 1075 < 1 / 2 ^ 1074" by simp
  then have "b < r" using r(2) assms(1) pos by (simp add: max_def abs_le_iff split: if_splits)
  then show ?thesis using assms(2) r(1)
    by (simp add: f64_const_values min_f64_def f64_gt_def)
qed

text \<open>
  The float comparison of \<^verbatim>\<open>errors/total\<close> with the literal for \<open>1 / n\<close> agrees with
  the exact comparison, for counts up to \<open>2 ^ 40\<close>.
\<close>

lemma ratio_exceeds_iff:
  fixes e t n :: int and cq :: real
  assumes et: "0 \<le> e" "e \<le> t" "1 \<le> t" "t \<le> 2 ^ 40"
    and n: "1 \<le> n" "n \<le> 100"
    and c: "f64_const (1 / of_int n) = Fin cq" "\<bar>cq - 1 / of_int n\<bar> \<le> 1 / 2 ^ 56"
  shows "f64_gt (f64_div (float64_of_int e) (float64_of_int t)) (f64_const (1 / of_int n))
         \<longleftrightarrow> t < n * e"
proof -
  define E T N :: real where "E = of_int e" and "T = of_int t" and "N = of_int n"
  define u where "u = 1 / N"
  define \<rho> where "\<rho> = E / T"
  define d :: real where "d = 1 / 2 ^ 56"
  define g :: real where "g = 1 / (100 * 2 ^ 40)"
  have T: "1 \<le> T" "T \<le> 2 ^ 40" and E: "0 \<le> E" "E \<le> T" and N: "1 \<le> N" "N \<le> 100"
    using et n unfolding E_def T_def N_def
    by (simp_all add: of_int_le_numeral_power_cancel_iff)
  have fe: "float64_of_int e = Fin E" unfolding E_def
    using et by (intro float64_of_int_exact) simp_all
  have ft: "float64_of_int t = Fin T" unfolding T_def
    using et by (intro float64_of_int_exact) simp_all
  have dv: "f64_div (float64_of_int e) (float64_of_int t) = round_f64 \<rho>"
    using T(1) by (simp add: fe ft \<rho>_def)
  have cn: "\<bar>cq - u\<bar> \<le> d" using c(2) by (simp only: N_def u_def d_def)
  have dg: "0 < d" "9 * d < g" "d < 1 / 200" by (simp_all add: d_def g_def)
  have d53: "(1::real) / 2 ^ 53 = 8 * d" by (simp add: d_def)
  have u100: "1 / 100 \<le> u" unfolding u_def using N by (simp add: frac_le)
  have gap: "g \<le> 1 / (N * T)"
  proof -
    have "N * T \<le> 100 * 2 ^ 40" using N T by (intro mult_mono) simp_all
    moreover have "0 < N * T" using N T by simp
    ultimately show ?thesis unfolding g_def by (simp add: frac_le)
  qed
  have goal: "f64_lt (Fin cq) (round_f64 \<rho>) \<longleftrightarrow> T < N * E"
  proof (cases "E = 0")
    case True
    have "0 < cq" using cn u100 dg by linarith
    then show ?thesis using True T by (simp add: round_f64_def \<rho>_def)
  next
    case False
    then have Epos: "0 < E" using E by simp
    then have "1 \<le> E" unfolding E_def by simp
    have rho: "0 < \<rho>" "\<rho> \<le> 1" using Epos E T by (simp_all add: \<rho>_def)
    have "1 / 2 ^ 40 \<le> 1 / T" using T by (simp add: frac_le)
    moreover have "1 / T \<le> E / T" using \<open>1 \<le> E\<close> T by (simp add: divide_right_mono)
    moreover have "(1::real) / 2 ^ 1022 \<le> 1 / 2 ^ 40"
      by (rule frac_le) (simp_all add: power_increasing)
    ultimately have lo: "1 / 2 ^ 1022 \<le> \<rho>" unfolding \<rho>_def by linarith
    have "(1::real) \<le> pow2 1023" using pow2_mono[of 0 1023] by (simp add: pow2_numeral_eval(8))
    then have hi: "\<rho> \<le> pow2 1023" using rho by linarith
    from round_f64_relative[OF lo hi] obtain r where
      r: "round_f64 \<rho> = Fin r" "\<bar>r - \<rho>\<bar> \<le> \<rho> / 2 ^ 53" by blast
    have "\<rho> / 2 ^ 53 \<le> 1 / 2 ^ 53" using rho(2) by (simp add: divide_right_mono)
    then have rb: "\<bar>r - \<rho>\<bar> \<le> 8 * d" using r(2) unfolding d53 by linarith
    have diff: "\<rho> - u = (N * E - T) / (N * T)"
      using T N by (simp add: field_simps \<rho>_def u_def)
    consider "T < N * E" | "T = N * E" | "N * E < T" by linarith
    then show ?thesis
    proof cases
      case 1
      then have "t < n * e" unfolding E_def T_def N_def by (simp only: flip: of_int_mult of_int_less_iff)
      then have "t + 1 \<le> n * e" by simp
      then have "of_int (t + 1) \<le> (of_int (n * e) :: real)" by (simp only: of_int_le_iff)
      then have "T + 1 \<le> N * E" unfolding E_def T_def N_def by simp
      then have "1 / (N * T) \<le> (N * E - T) / (N * T)"
        using N T by (intro divide_right_mono) simp_all
      with gap diff have "u + g \<le> \<rho>" by linarith
      with rb cn dg have "cq < r" by linarith
      with 1 show ?thesis by (simp add: r(1))
    next
      case 2
      then have "\<rho> = 1 / N" using T N Epos by (simp add: field_simps \<rho>_def)
      then have "round_f64 \<rho> = Fin cq" using c(1) by (simp add: f64_const_def N_def)
      with 2 show ?thesis by simp
    next
      case 3
      then have "n * e < t" unfolding E_def T_def N_def by (simp only: flip: of_int_mult of_int_less_iff)
      then have "n * e + 1 \<le> t" by simp
      then have "of_int (n * e + 1) \<le> (of_int t :: real)" by (simp only: of_int_le_iff)
      then have "N * E + 1 \<le> T" unfolding E_def T_def N_def by simp
      then have "(N * E - T) / (N * T) \<le> (- 1) / (N * T)"
        using N T by (intro divide_right_mono) simp_all
      moreover have "(- 1) / (N * T) = - (1 / (N * T))" by simp
      ultimately have "\<rho> \<le> u - g" using gap diff by linarith
      with rb cn dg have "r < cq" by linarith
      with 3 show ?thesis by (simp add: r(1))
    qed
  qed
  have "t < n * e \<longleftrightarrow> T < N * E"
    unfolding E_def T_def N_def by (simp only: flip: of_int_mult of_int_less_iff)
  then show ?thesis using goal by (simp add: f64_gt_def dv c(1))
qed

lemma literal_errors:
  "\<bar>3602879701896397 / 72057594037927936 - 1 / (20::real)\<bar> \<le> 1 / 2 ^ 56"
  "\<bar>5764607523034235 / 576460752303423488 - 1 / (100::real)\<bar> \<le> 1 / 2 ^ 56"
  by simp_all

lemma error_rate_thresholds_exact:
  assumes "0 \<le> e" "e \<le> t" "1 \<le> t" "t \<le> 2 ^ 40"
  shows "f64_gt (f64_div (float64_of_int e) (float64_of_int t)) (f64_const (5 / 100))
           \<longleftrightarrow> 5 * t < 100 * e"
    and "f64_gt (f64_div (float64_of_int e) (float64_of_int t)) (f64_const (1 / 100))
           \<longleftrightarrow> t < 100 * e"
proof -
  have c20: "f64_const (1 / of_int 20) = Fin (3602879701896397 / 72057594037927936)"
    using f64_const_normal_forms(1) by simp
  have e20: "\<bar>3602879701896397 / 72057594037927936 - 1 / real_of_int 20\<bar> \<le> 1 / 2 ^ 56"
    by simp
  have c100: "f64_const (1 / of_int 100) = Fin (5764607523034235 / 576460752303423488)"
    using f64_const_fractions(2) by simp
  have e100: "\<bar>5764607523034235 / 576460752303423488 - 1 / real_of_int 100\<bar> \<le> 1 / 2 ^ 56"
    by simp
  have n20: "(1::int) \<le> 20" "(20::int) \<le> 100" and n100: "(1::int) \<le> 100" "(100::int) \<le> 100"
    by simp_all
  have "f64_gt (f64_div (float64_of_int e) (float64_of_int t)) (f64_const (1 / of_int 20))
           \<longleftrightarrow> t < 20 * e"
    by (rule ratio_exceeds_iff[OF assms n20 c20 e20])
  then show "f64_gt (f64_div (float64_of_int e) (float64_of_int t)) (f64_const (5 / 100))
           \<longleftrightarrow> 5 * t < 100 * e" by simp
  have "f64_gt (f64_div (float64_of_int e) (float64_of_int t)) (f64_const (1 / of_int 100))
           \<longleftrightarrow> t < 100 * e"
    by (rule ratio_exceeds_iff[OF assms n100 c100 e100])
  then show "f64_gt (f64_div (float64_of_int e) (float64_of_int t)) (f64_const (1 / 100))
           \<longleftrightarrow> t < 100 * e" by simp
qed

text \<open>
  C3. Recording 50 error and 50 non-error samples with a window of 100 does not
  always leave the adaptive rate above the base rate: with a base rate of 0.0 the
  recalculated rate is \<open>min(1.0, 0.0 * 2.0) = 0.0\<close>.
\<close>

theorem window_example_rate_zero:
  "\<not> f64_gt (adaptiveRate (record_samples
        (NewSamplingProcessor ''test-sampler''
           (DefaultSamplingConfig\<lparr>BaseSampleRate := f64_const 0, AdaptiveWindow := 100\<rparr>))
        (replicate 50 True @ replicate 50 False)))
      (f64_const 0)"
proof -
  have "adaptiveRate (record_samples
        (NewSamplingProcessor ''test-sampler''
           (DefaultSamplingConfig\<lparr>BaseSampleRate := f64_const 0, AdaptiveWindow := 100\<rparr>))
        (replicate 50 True @ replicate 50 False))
      = min_f64 (f64_const 1) (f64_mul (f64_const 0) (f64_const 2))"
    by (subst window_example_rate) (simp_all add: DefaultSamplingConfig_def)
  then show ?thesis
    by (simp add: f64_const_values min_f64_def f64_gt_def round_f64_def)
qed

text \<open>
  C3, as the code has it. The recording that brings the rolling total to the window
  size sets the adaptive rate to \<open>min(1.0, baseRate * 2.0)\<close> when errors/total is above
  the literal 0.05, else to \<open>min(1.0, baseRate * 1.5)\<close> when it is above the literal
  0.01, else to the base rate, and resets both counters; before that the counters
  only grow. For totals up to \<open>2 ^ 40\<close> the two float comparisons are the exact ones:
  more than 5\% and more than 1\% of the samples are errors. Recording 50 error and
  50 non-error samples, in any order, into a new processor with window 100 gives the
  rate \<open>min(1.0, baseRate * 2.0)\<close>, which is above the base rate when the base rate is
  above 0 and below 1 (a positive float is at least \<open>2 ^ - 1074\<close>).
\<close>

theorem recordSample_window_rule:
  "(adaptiveWindow p \<le> recentTotal p + 1 \<longrightarrow>
      recordSample p b =
        p\<lparr>adaptiveRate :=
            (if f64_gt (f64_div (float64_of_int (recentErrors p + (if b then 1 else 0)))
                               (float64_of_int (recentTotal p + 1))) (f64_const (5 / 100))
             then min_f64 (f64_const 1) (f64_mul (baseSampleRate p) (f64_const 2))
             else if f64_gt (f64_div (float64_of_int (recentErrors p + (if b then 1 else 0)))
                                    (float64_of_int (recentTotal p + 1))) (f64_const (1 / 100))
             then min_f64 (f64_const 1) (f64_mul (baseSampleRate p) (f64_const (3 / 2)))
             else baseSampleRate p),
          recentErrors := 0, recentTotal := 0\<rparr>)
   \<and> (recentTotal p + 1 < adaptiveWindow p \<longrightarrow>
      recordSample p b = p\<lparr>recentTotal := recentTotal p + 1,
                            recentErrors := recentErrors p + (if b then 1 else 0)\<rparr>)
   \<and> (0 \<le> e \<and> e \<le> t \<and> 1 \<le> t \<and> t \<le> 2 ^ 40 \<longrightarrow>
        (f64_gt (f64_div (float64_of_int e) (float64_of_int t)) (f64_const (5 / 100))
           \<longleftrightarrow> 5 * t < 100 * e)
      \<and> (f64_gt (f64_div (float64_of_int e) (float64_of_int t)) (f64_const (1 / 100))
           \<longleftrightarrow> t < 100 * e))
   \<and> (AdaptiveWindow cfg = 100 \<and> length bs = 100 \<and> length (filter (\<lambda>x. x) bs) = 50
        \<and> BaseSampleRate cfg = Fin base \<and> 1 / 2 ^ 1074 \<le> base \<and> base < 1 \<longrightarrow>
        adaptiveRate (record_samples (NewSamplingProcessor nm cfg) bs)
          = min_f64 (f64_const 1) (f64_mul (Fin base) (f64_const 2))
      \<and> f64_gt (adaptiveRate (record_samples (NewSamplingProcessor nm cfg) bs))
               (BaseSampleRate cfg))"
proof -
  have a: "adaptiveWindow p \<le> recentTotal p + 1 \<longrightarrow>
      recordSample p b =
        p\<lparr>adaptiveRate :=
            (if f64_gt (f64_div (float64_of_int (recentErrors p + (if b then 1 else 0)))
                               (float64_of_int (recentTotal p + 1))) (f64_const (5 / 100))
             then min_f64 (f64_const 1) (f64_mul (baseSampleRate p) (f64_const 2))
             else if f64_gt (f64_div (float64_of_int (recentErrors p + (if b then 1 else 0)))
                                    (float64_of_int (recentTotal p + 1))) (f64_const (1 / 100))
             then min_f64 (f64_const 1) (f64_mul (baseSampleRate p) (f64_const (3 / 2)))
             else baseSampleRate p),
          recentErrors := 0, recentTotal := 0\<rparr>"
    using recordSample_at_window[of p b] by blast
  have b: "recentTotal p + 1 < adaptiveWindow p \<longrightarrow>
      recordSample p b = p\<lparr>recentTotal := recentTotal p + 1,
                            recentErrors := recentErrors p + (if b then 1 else 0)\<rparr>"
    using recordSample_below_window[of p b] by blast
  have c: "0 \<le> e \<and> e \<le> t \<and> 1 \<le> t \<and> t \<le> 2 ^ 40 \<longrightarrow>
        (f64_gt (f64_div (float64_of_int e) (float64_of_int t)) (f64_const (5 / 100))
           \<longleftrightarrow> 5 * t < 100 * e)
      \<and> (f64_gt (f64_div (float64_of_int e) (float64_of_int t)) (f64_const (1 / 100))
           \<longleftrightarrow> t < 100 * e)"
    using error_rate_thresholds_exact[of e t] by blast
  have d: "AdaptiveWindow cfg = 100 \<and> length bs = 100 \<and> length (filter (\<lambda>x. x) bs) = 50
        \<and> BaseSampleRate cfg = Fin base \<and> 1 / 2 ^ 1074 \<le> base \<and> base < 1 \<longrightarrow>
        adaptiveRate (record_samples (NewSamplingProcessor nm cfg) bs)
          = min_f64 (f64_const 1) (f64_mul (Fin base) (f64_const 2))
      \<and> f64_gt (adaptiveRate (record_samples (NewSamplingProcessor nm cfg) bs))
               (BaseSampleRate cfg)"
  proof (intro impI, elim conjE)
    assume h: "AdaptiveWindow cfg = 100" "length bs = 100" "length (filter (\<lambda>x. x) bs) = 50"
      "BaseSampleRate cfg = Fin base" "1 / 2 ^ 1074 \<le> base" "base < 1"
    have r: "adaptiveRate (record_samples (NewSamplingProcessor nm cfg) bs)
          = min_f64 (f64_const 1) (f64_mul (Fin base) (f64_const 2))"
      using window_example_rate[OF h(1,2,3), of nm] by (simp only: h(4))
    show "adaptiveRate (record_samples (NewSamplingProcessor nm cfg) bs)
          = min_f64 (f64_const 1) (f64_mul (Fin base) (f64_const 2))
      \<and> f64_gt (adaptiveRate (record_samples (NewSamplingProcessor nm cfg) bs))
               (BaseSampleRate cfg)"
      unfolding r h(4) using doubled_rate_above[OF h(5,6)] by simp
  qed
  show ?thesis using a b c d by blast
qed

theorem recordSample_window_rule_witness:
  "f64_gt (adaptiveRate (record_samples
        (NewSamplingProcessor ''test-sampler'' (DefaultSamplingConfig\<lparr>AdaptiveWindow := 100\<rparr>))
        (replicate 50 True @ replicate 50 False)))
      (f64_const (1 / 10))
   \<and> (f64_gt (f64_div (float64_of_int 50) (float64_of_int 100)) (f64_const (5 / 100)))
   \<and> \<not> (f64_gt (f64_div (float64_of_int 5) (float64_of_int 100)) (f64_const (5 / 100)))"
  using recordSample_window_rule[where cfg = "DefaultSamplingConfig\<lparr>AdaptiveWindow := 100\<rparr>"
      and bs = "replicate 50 True @ replicate 50 False"
      and base = "3602879701896397 / 36028797018963968" and nm = "''test-sampler''"
      and e = 50 and t = 100]
    recordSample_window_rule[where e = 5 and t = 100]
  by (simp add: DefaultSamplingConfig_def f64_const_fractions)

section \<open>The health status\<close>

lemma rate_examples:
  "DropRate (counters_snapshot 100 6 e x) = Fin 6"
  "DropRate (counters_snapshot 100 2 e x) = Fin 2"
  "DropRate (counters_snapshot 1000 1 e x) = f64_const (1 / 10)"
  "ErrorRate (counters_snapshot r d 0 0) = Fin 0"
  "ErrorRate (counters_snapshot r d 10 5) = Fin 50"
  by (simp_all add: DropRate_def ErrorRate_def counters_snapshot_def float64_of_uint64_def
      f64_const_values f64_const_fractions f64_eval)

lemma default_thresholds:
  "dropRateWarning (NewHealthCheck DefaultHealthCheckConfig) = Fin 1"
  "dropRateCritical (NewHealthCheck DefaultHealthCheckConfig) = Fin 5"
  "errorRateWarning (NewHealthCheck DefaultHealthCheckConfig) = Fin 2"
  "errorRateCritical (NewHealthCheck DefaultHealthCheckConfig) = Fin 10"
  by (simp_all add: NewHealthCheck_def DefaultHealthCheckConfig_def f64_const_values)

text \<open>
  C4. A drop rate of 2\% does not by itself give the status degraded: with the
  default thresholds, 2 of 100 spans dropped and 5 of 10 exports failed, the drop rate
  is 2\% and the status is unhealthy, by the critical error threshold.
\<close>

theorem drop_rate_two_percent_unhealthy:
  "DropRate (counters_snapshot 100 2 10 5) = Fin 2
   \<and> determineStatus (NewHealthCheck DefaultHealthCheckConfig) (counters_snapshot 100 2 10 5)
       = HealthStatusUnhealthy"
  by (simp add: determineStatus_def rate_examples default_thresholds f64_ge_def Let_def)

text \<open>
  C4, as the code has it. The status is unhealthy exactly when the drop rate or the
  error rate is at or above its critical threshold, degraded exactly when neither is
  and one of them is at or above its warning threshold, and healthy otherwise. With
  the default thresholds a drop rate of 6\% gives unhealthy, a drop rate of 2\% with
  an error rate below 10\% gives degraded, and a drop rate of 0.1\% with an error rate
  of 0\% gives healthy.
\<close>

theorem determineStatus_thresholds:
  "(determineStatus h s = HealthStatusUnhealthy \<longleftrightarrow>
      f64_ge (DropRate s) (dropRateCritical h) \<or> f64_ge (ErrorRate s) (errorRateCritical h))
   \<and> (determineStatus h s = HealthStatusDegraded \<longleftrightarrow>
      \<not> (f64_ge (DropRate s) (dropRateCritical h) \<or> f64_ge (ErrorRate s) (errorRateCritical h))
      \<and> (f64_ge (DropRate s) (dropRateWarning h) \<or> f64_ge (ErrorRate s) (errorRateWarning h)))
   \<and> (determineStatus h s = HealthStatusHealthy \<longleftrightarrow>
      \<not> (f64_ge (DropRate s) (dropRateCritical h) \<or> f64_ge (ErrorRate s) (errorRateCritical h))
      \<and> \<not> (f64_ge (DropRate s) (dropRateWarning h) \<or> f64_ge (ErrorRate s) (errorRateWarning h)))
   \<and> (DropRate s = Fin 6 \<longrightarrow>
        determineStatus (NewHealthCheck DefaultHealthCheckConfig) s = HealthStatusUnhealthy)
   \<and> (DropRate s = Fin 2 \<and> \<not> f64_ge (ErrorRate s) (Fin 10) \<longrightarrow>
        determineStatus (NewHealthCheck DefaultHealthCheckConfig) s = HealthStatusDegraded)
   \<and> (DropRate s = f64_const (1 / 10) \<and> ErrorRate s = Fin 0 \<longrightarrow>
        determineStatus (NewHealthCheck DefaultHealthCheckConfig) s = HealthStatusHealthy)"
  by (simp add: determineStatus_def default_thresholds f64_ge_def f64_const_fractions Let_def)

theorem determineStatus_thresholds_witness:
  "determineStatus (NewHealthCheck DefaultHealthCheckConfig) (counters_snapshot 100 6 0 0)
     = HealthStatusUnhealthy
   \<and> determineStatus (NewHealthCheck DefaultHealthCheckConfig) (counters_snapshot 100 2 0 0)
     = HealthStatusDegraded
   \<and> determineStatus (NewHealthCheck DefaultHealthCheckConfig) (counters_snapshot 1000 1 0 0)
     = HealthStatusHealthy"
  using determineStatus_thresholds[of _ "counters_snapshot 100 6 0 0"]
    determineStatus_thresholds[of _ "counters_snapshot 100 2 0 0"]
    determineStatus_thresholds[of _ "counters_snapshot 1000 1 0 0"]
  by (simp add: rate_examples f64_ge_def)

section \<open>The latency buffer\<close>

lemma store_cells [simp]: "cells (store h a xs) a = xs"
  by (simp add: store_def)

lemma store_store [simp]: "store (store h a xs) a ys = store h a ys"
  by (simp add: store_def)

lemma store_same [simp]: "store h a (cells h a) = h"
  by (simp add: store_def)

lemma RecordProcessingTime_step:
  assumes "1 \<le> maxSamples m" "int (length (cells h (processingTimes m))) \<le> maxSamples m"
  shows "RecordProcessingTime h m d =
           Inr (store h (processingTimes m)
                  (drop (length (cells h (processingTimes m)) + 1 - nat (maxSamples m))
                        (cells h (processingTimes m) @ [d])))"
proof (cases "maxSamples m \<le> int (length (cells h (processingTimes m)))")
  case True
  define buf where "buf = cells h (processingTimes m)"
  have len: "length buf = nat (maxSamples m)" using True assms by (simp add: buf_def)
  then have ne: "buf \<noteq> []" using assms(1) by auto
  have "take (nat (maxSamples m - 1)) (tl buf @ [last buf]) = tl buf"
    using len assms(1) by (simp add: nat_diff_distrib)
  moreover have "drop (length buf + 1 - nat (maxSamples m)) (buf @ [d]) = tl buf @ [d]"
    using len ne by (cases buf) simp_all
  ultimately show ?thesis
    using True assms(1) len ne unfolding RecordProcessingTime_def buf_def[symmetric] Let_def
    by simp
next
  case False
  then show ?thesis using assms by (simp add: RecordProcessingTime_def Let_def)
qed

lemma record_all_result:
  assumes "1 \<le> maxSamples m"
  shows "int (length (cells h (processingTimes m))) \<le> maxSamples m \<Longrightarrow>
         record_all h m ds =
           Inr (store h (processingTimes m)
                  (drop (length (cells h (processingTimes m) @ ds) - nat (maxSamples m))
                        (cells h (processingTimes m) @ ds)))"
proof (induction ds arbitrary: h)
  case Nil
  then show ?case by simp
next
  case (Cons d ds)
  define a where "a = processingTimes m"
  define buf where "buf = cells h a"
  define k where "k = length buf + 1 - nat (maxSamples m)"
  define h1 where "h1 = store h a (drop k (buf @ [d]))"
  have step: "RecordProcessingTime h m d = Inr h1"
    using RecordProcessingTime_step[OF assms Cons.prems] by (simp add: h1_def k_def buf_def a_def)
  have c1: "cells h1 a = drop k (buf @ [d])" by (simp add: h1_def)
  have lenb: "length buf \<le> nat (maxSamples m)" using Cons.prems by (simp add: buf_def a_def)
  have k01: "k \<le> length buf" using assms by (simp add: k_def)
  have l1: "length (cells h1 a) = length buf + 1 - k" by (simp add: c1)
  have "int (length (cells h1 (processingTimes m))) \<le> maxSamples m"
    using lenb assms unfolding a_def[symmetric] l1 k_def by linarith
  from Cons.IH[OF this]
  have r1: "record_all h1 m ds =
          Inr (store h1 a (drop (length (cells h1 a @ ds) - nat (maxSamples m)) (cells h1 a @ ds)))"
    by (simp add: a_def)
  define L where "L = buf @ d # ds"
  have e1: "cells h1 a @ ds = drop k L" using k01 by (simp add: c1 L_def)
  have "length L = length buf + 1 + length ds" by (simp add: L_def)
  then have "length (drop k L) - nat (maxSamples m) + k = length L - nat (maxSamples m)"
    using lenb k01 unfolding k_def by simp arith
  then have e2: "drop (length (drop k L) - nat (maxSamples m)) (drop k L)
             = drop (length L - nat (maxSamples m)) L"
    by (simp only: drop_drop)
  have e3: "store h1 a (drop (length L - nat (maxSamples m)) L)
            = store h a (drop (length L - nat (maxSamples m)) L)"
    unfolding h1_def by (rule store_store)
  have "record_all h1 m ds = Inr (store h a (drop (length L - nat (maxSamples m)) L))"
    by (simp only: r1 e1 e2 e3)
  moreover have "record_all h m (d # ds) = record_all h1 m ds" using step by simp
  moreover have "cells h (processingTimes m) @ d # ds = L" by (simp add: L_def buf_def a_def)
  ultimately show ?case by (simp only: a_def)
qed

text \<open>
  C6. With a capacity of at least one and a buffer within it, any run of
  recordings goes through without a panic and leaves the last \<^verbatim>\<open>maxSamples\<close> samples
  in the buffer, oldest first; the buffer never holds more than \<^verbatim>\<open>maxSamples\<close>.
  After one recording more than the capacity into an empty buffer the first
  recorded value is gone.
\<close>

theorem latency_buffer_bounded_fifo:
  assumes "1 \<le> maxSamples m" and "int (length (cells h (processingTimes m))) \<le> maxSamples m"
  shows "\<exists>h'. record_all h m ds = Inr h'
           \<and> cells h' (processingTimes m)
               = drop (length (cells h (processingTimes m) @ ds) - nat (maxSamples m))
                      (cells h (processingTimes m) @ ds)
           \<and> int (length (cells h' (processingTimes m))) \<le> maxSamples m
           \<and> (cells h (processingTimes m) = [] \<and> int (length ds) = maxSamples m + 1 \<and> distinct ds
                \<longrightarrow> cells h' (processingTimes m) = tl ds
                    \<and> hd ds \<notin> set (cells h' (processingTimes m)))"
proof -
  define buf where "buf = cells h (processingTimes m)"
  define h' where "h' = store h (processingTimes m)
     (drop (length (buf @ ds) - nat (maxSamples m)) (buf @ ds))"
  have r: "record_all h m ds = Inr h'"
    using record_all_result[OF assms] by (simp add: h'_def buf_def)
  have c: "cells h' (processingTimes m) = drop (length (buf @ ds) - nat (maxSamples m)) (buf @ ds)"
    by (simp add: h'_def)
  have l: "int (length (cells h' (processingTimes m))) \<le> maxSamples m"
    unfolding c using assms(1) by simp
  have e: "cells h' (processingTimes m) = tl ds \<and> hd ds \<notin> set (cells h' (processingTimes m))"
    if "buf = []" "int (length ds) = maxSamples m + 1" "distinct ds"
  proof -
    from that(2) assms(1) have "length ds - nat (maxSamples m) = 1" by linarith
    with that(1) have t: "cells h' (processingTimes m) = tl ds" by (simp add: c drop_Suc)
    from that(2) assms(1) have "ds \<noteq> []" by auto
    with that(3) have "hd ds \<notin> set (tl ds)" by (cases ds) simp_all
    with t show ?thesis by simp
  qed
  show ?thesis
    using r c l e unfolding buf_def by blast
qed

theorem latency_buffer_bounded_fifo_witness:
  "\<exists>h'. record_all (snd (NewMetrics empty_heap)) ((fst (NewMetrics empty_heap))\<lparr>maxSamples := 3\<rparr>)
            [10, 20, 30, 40] = Inr h'
        \<and> cells h' (processingTimes (fst (NewMetrics empty_heap))) = [20, 30, 40]
        \<and> 10 \<notin> set (cells h' (processingTimes (fst (NewMetrics empty_heap))))"
  using latency_buffer_bounded_fifo[of "(fst (NewMetrics empty_heap))\<lparr>maxSamples := 3\<rparr>"
      "snd (NewMetrics empty_heap)" "[10, 20, 30, 40]"]
  by (auto simp add: NewMetrics_def alloc_def empty_heap_def simp del: record_all.simps)

section \<open>The snapshot\<close>

text \<open>The two loops of \<^verbatim>\<open>Snapshot\<close> sort the copy in ascending order.\<close>

lemma sort_inner_props:
  "i < j \<Longrightarrow> j \<le> n \<Longrightarrow> n = length s \<Longrightarrow> \<forall>k. i < k \<and> k < j \<longrightarrow> s ! i \<le> s ! k \<Longrightarrow>
   length (sort_inner s i j n) = n \<and> mset (sort_inner s i j n) = mset s
   \<and> take i (sort_inner s i j n) = take i s
   \<and> (\<forall>k. i < k \<and> k < n \<longrightarrow> sort_inner s i j n ! i \<le> sort_inner s i j n ! k)"
proof (induction s i j n rule: sort_inner.induct)
  case (1 s i j n)
  show ?case
  proof (cases "j < n")
    case False
    with 1(3) have jn: "j = n" by simp
    have eq: "sort_inner s i j n = s" using False by (subst sort_inner.simps) simp
    show ?thesis unfolding eq using 1(4,5) jn by simp
  next
    case True
    define s1 where "s1 = (if s ! j < s ! i then s[i := s ! j, j := s ! i] else s)"
    have ij: "i < length s" "j < length s" "i \<noteq> j" using True 1(2,4) by simp_all
    have len: "n = length s1" using 1(4) by (simp add: s1_def)
    have ms: "mset s1 = mset s" using ij by (simp add: s1_def mset_swap)
    have tk: "take i s1 = take i s" using 1(2) by (simp add: s1_def)
    have inv: "\<forall>k. i < k \<and> k < j + 1 \<longrightarrow> s1 ! i \<le> s1 ! k"
    proof (intro allI impI)
      fix k assume k: "i < k \<and> k < j + 1"
      show "s1 ! i \<le> s1 ! k"
      proof (cases "s ! j < s ! i")
        case sw: True
        have si: "s1 ! i = s ! j" using ij sw by (simp add: s1_def nth_list_update)
        show ?thesis
        proof (cases "k = j")
          case True
          then have "s1 ! k = s ! i" using ij sw by (simp add: s1_def)
          then show ?thesis using si sw by simp
        next
          case False
          then have kj: "i < k" "k < j" using k by simp_all
          then have "s1 ! k = s ! k" using ij sw by (simp add: s1_def)
          moreover have "s ! i \<le> s ! k" using 1(5) kj by blast
          ultimately show ?thesis using si sw by simp
        qed
      next
        case ns: False
        then have e: "s1 = s" by (simp add: s1_def)
        show ?thesis
        proof (cases "k = j")
          case True
          then show ?thesis using ns e by simp
        next
          case False
          then have "i < k" "k < j" using k by simp_all
          then show ?thesis using 1(5) e by blast
        qed
      qed
    qed
    have ih: "length (sort_inner s1 i (j + 1) n) = n \<and> mset (sort_inner s1 i (j + 1) n) = mset s1
      \<and> take i (sort_inner s1 i (j + 1) n) = take i s1
      \<and> (\<forall>k. i < k \<and> k < n \<longrightarrow> sort_inner s1 i (j + 1) n ! i \<le> sort_inner s1 i (j + 1) n ! k)"
      unfolding s1_def
    proof (rule 1(1)[OF True])
      show "i < j + 1" using 1(2) by simp
      show "j + 1 \<le> n" using True by simp
      show "n = length (if s ! j < s ! i then s[i := s ! j, j := s ! i] else s)"
        using len by (simp add: s1_def)
      show "\<forall>k. i < k \<and> k < j + 1 \<longrightarrow>
              (if s ! j < s ! i then s[i := s ! j, j := s ! i] else s) ! i
              \<le> (if s ! j < s ! i then s[i := s ! j, j := s ! i] else s) ! k"
        using inv by (simp only: s1_def)
    qed
    have eq: "sort_inner s i j n = sort_inner s1 i (j + 1) n"
      using True by (subst sort_inner.simps) (simp add: s1_def)
    show ?thesis unfolding eq using ih ms tk by simp
  qed
qed

lemma sort_outer_props:
  "i \<le> n \<Longrightarrow> n = length s \<Longrightarrow> sorted (take i s)
   \<Longrightarrow> \<forall>a\<in>set (take i s). \<forall>b\<in>set (drop i s). a \<le> b
   \<Longrightarrow> sorted (sort_outer s i n) \<and> mset (sort_outer s i n) = mset s"
proof (induction s i n rule: sort_outer.induct)
  case (1 s i n)
  show ?case
  proof (cases "i < n")
    case False
    with 1(2,3) have ts: "take i s = s" by simp
    have eq: "sort_outer s i n = s" using False by (subst sort_outer.simps) simp
    show ?thesis unfolding eq using 1(4) ts by simp
  next
    case True
    define s' where "s' = sort_inner s i (i + 1) n"
    have p: "length s' = n" "mset s' = mset s" "take i s' = take i s"
      "\<forall>k. i < k \<and> k < n \<longrightarrow> s' ! i \<le> s' ! k"
      using sort_inner_props[of i "i + 1" n s] True 1(3) by (simp_all add: s'_def)
    have md: "mset (drop i s') = mset (drop i s)"
    proof -
      have "mset (take i s') + mset (drop i s') = mset (take i s) + mset (drop i s)"
        using p(2) by (metis append_take_drop_id mset_append)
      then show ?thesis using p(3) by simp
    qed
    then have sd: "set (drop i s') = set (drop i s)" by (metis set_mset_mset)
    have il: "i < length s'" using True p(1) by simp
    have t1: "take (i + 1) s' = take i s' @ [s' ! i]" using il by (simp add: take_Suc_conv_app_nth)
    have d1: "drop i s' = s' ! i # drop (i + 1) s'" using il by (simp add: Cons_nth_drop_Suc)
    have in_d: "s' ! i \<in> set (drop i s)" using d1 sd by (metis list.set_intros(1))
    have sorted1: "sorted (take (i + 1) s')"
      unfolding t1 using 1(4,5) p(3) in_d by (simp add: sorted_append)
    have bound1: "\<forall>a\<in>set (take (i + 1) s'). \<forall>b\<in>set (drop (i + 1) s'). a \<le> b"
    proof (intro ballI)
      fix a b assume a: "a \<in> set (take (i + 1) s')" and b: "b \<in> set (drop (i + 1) s')"
      from b obtain k where k: "k < length (drop (i + 1) s')" "b = drop (i + 1) s' ! k"
        by (metis in_set_conv_nth)
      then have bk: "b = s' ! (i + 1 + k)" "i + 1 + k < n" using p(1) by simp_all
      have b_in: "b \<in> set (drop i s)" using b d1 sd by (metis list.set_intros(2))
      from a have "a \<in> set (take i s) \<or> a = s' ! i" unfolding t1 using p(3) by auto
      then show "a \<le> b"
      proof
        assume "a \<in> set (take i s)"
        then show ?thesis using 1(5) b_in by blast
      next
        assume "a = s' ! i"
        then show ?thesis using p(4) bk by simp
      qed
    qed
    have ih: "sorted (sort_outer s' (i + 1) n) \<and> mset (sort_outer s' (i + 1) n) = mset s'"
      unfolding s'_def
    proof (rule 1(1)[OF True])
      show "i + 1 \<le> n" using True by simp
      show "n = length (sort_inner s i (i + 1) n)" using p(1) by (simp add: s'_def)
      show "sorted (take (i + 1) (sort_inner s i (i + 1) n))" using sorted1 by (simp only: s'_def)
      show "\<forall>a\<in>set (take (i + 1) (sort_inner s i (i + 1) n)).
              \<forall>b\<in>set (drop (i + 1) (sort_inner s i (i + 1) n)). a \<le> b"
        using bound1 by (simp only: s'_def)
    qed
    have eq: "sort_outer s i n = sort_outer s' (i + 1) n"
      using True by (subst sort_outer.simps) (simp add: s'_def)
    show ?thesis unfolding eq using ih p(2) by simp
  qed
qed

lemma sort_outer_sort: "sort_outer s 0 (length s) = sort s"
proof -
  have "sorted (sort_outer s 0 (length s)) \<and> mset (sort_outer s 0 (length s)) = mset s"
    by (rule sort_outer_props) simp_all
  then show ?thesis by (metis properties_for_sort)
qed

text \<open>
  For a literal \<open>k / 100\<close> whose float is at least one half and lies below it by less
  than a quarter of an ulp, \<^verbatim>\<open>int(float64(n) * literal)\<close> is \<open>\<lfloor>n * k / 100\<rfloor>\<close> for every
  length up to \<open>2 ^ 40\<close>.
\<close>

lemma percentile_index_exact:
  fixes n :: nat and k :: int and c :: real
  assumes n: "1 \<le> n" "n < 2 ^ 40" and k: "1 \<le> k" "k < 100"
    and c: "f64_const (of_int k / 100) = Fin c"
    and d: "0 \<le> of_int k / 100 - c" "(of_int k / 100 - c) * 2 ^ 54 < c" "1 / 2 \<le> c"
  shows "percentile_index impl (of_int k / 100) n = (int n * k) div 100"
proof -
  define N :: real where "N = of_int (int n)"
  define K :: real where "K = of_int ((int n * k) div 100)"
  define P :: real where "P = of_int ((int n * k) mod 100)"
  define \<delta> where "\<delta> = of_int k / 100 - c"
  define x where "x = N * c"
  define w where "w = N * \<delta>"
  have N: "1 \<le> N" "N < 2 ^ 40" using n unfolding N_def by (simp_all add: of_nat_less_numeral_power_cancel_iff)
  have fn: "float64_of_int (int n) = Fin N" unfolding N_def
  proof (rule float64_of_int_exact)
    show "0 \<le> int n" by simp
    have "int n < 2 ^ 40" using n(2) by (simp add: of_nat_less_numeral_power_cancel_iff)
    then show "int n < 2 ^ 52" by (rule less_le_trans) simp
  qed
  have px: "percentile_index impl (of_int k / 100) n = int_of_float64 impl (round_f64 x)"
    by (simp add: percentile_index_def fn c x_def)
  define q r where "q = (int n * k) div 100" and "r = (int n * k) mod 100"
  have "int n * k = 100 * q + r" by (simp add: q_def r_def)
  then have "(of_int (int n * k) :: real) = of_int (100 * q + r)" by (simp only:)
  then have "N * of_int k = 100 * of_int q + of_int r" by (simp add: N_def)
  then have dm: "N * of_int k = 100 * K + P" by (simp only: K_def P_def q_def r_def)
  have P: "0 \<le> P" "P \<le> 99" 
  proof -
    have "0 \<le> (int n * k) mod 100" "(int n * k) mod 100 < 100" by simp_all
    then have "0 \<le> (int n * k) mod 100" "(int n * k) mod 100 \<le> 99" by simp_all
    then show "0 \<le> P" "P \<le> 99" unfolding P_def by simp_all
  qed
  have xe: "x = K + P / 100 - w"
    using dm by (simp add: x_def \<delta>_def w_def algebra_simps)
  have c1: "c \<le> 1" using d(1) k(2) by simp
  have nd: "0 \<le> w" using N d(1) by (simp add: \<delta>_def w_def)
  have d54: "\<delta> \<le> 1 / 2 ^ 54" using d(2) c1 unfolding \<delta>_def by (simp add: field_simps)
  have "N * \<delta> \<le> 2 ^ 40 * (1 / 2 ^ 54)"
    using N d(1) d54 unfolding \<delta>_def by (intro mult_mono) simp_all
  then have nd2: "w \<le> 1 / 16384" by (simp add: w_def)
  have "1 * (1 / 2) \<le> N * c" using N d(3) by (intro mult_mono) simp_all
  then have xpos: "1 / 2 \<le> x" by (simp add: x_def)
  have xN: "x \<le> N" using N c1 unfolding x_def by (simp add: mult_left_le)
  have Kn: "0 \<le> K" unfolding K_def using k by (simp add: pos_imp_zdiv_nonneg_iff)
  show ?thesis
  proof (cases "(int n * k) mod 100 = 0")
    case False
    moreover have "0 \<le> (int n * k) mod 100" by simp
    ultimately have "1 \<le> (int n * k) mod 100" by linarith
    then have P1: "1 \<le> P" unfolding P_def by simp
    have lo: "1 / 2 ^ 1022 \<le> x"
      by (rule order_trans[OF _ xpos]) (simp add: field_simps)
    have "(2::real) ^ 40 \<le> pow2 1023" using pow2_mono[of 40 1023] by (simp add: pow2_def)
    then have hi: "x \<le> pow2 1023" using xN N by linarith
    from round_f64_relative[OF lo hi] obtain r where
      r: "round_f64 x = Fin r" "\<bar>r - x\<bar> \<le> x / 2 ^ 53" by blast
    have "x / 2 ^ 53 \<le> 2 ^ 40 / 2 ^ 53" using xN N by (intro divide_right_mono) simp_all
    then have "x / 2 ^ 53 \<le> 1 / 8192" by simp
    then have rb: "\<bar>r - x\<bar> \<le> 1 / 8192" using r(2) by linarith
    have rK: "K < r" "r < K + 1" using rb nd nd2 xe P P1 by linarith+
    then have fl: "\<lfloor>r\<rfloor> = (int n * k) div 100" unfolding K_def by linarith
    have r0: "0 \<le> r" using rK Kn by simp
    have "K \<le> N" using xe nd2 P1 xN by linarith
    then have "r < 2 ^ 63" using rK N by simp
    then have "int_of_float64 impl (Fin r) = \<lfloor>r\<rfloor>"
      using r0 by (simp add: int_of_float64_def trunc_def)
    then show ?thesis by (simp add: px r(1) fl)
  next
    case True
    then have P0: "P = 0" by (simp add: P_def)
    have n2: "2 \<le> n"
    proof (rule ccontr)
      assume "\<not> 2 \<le> n"
      with n(1) have "n = 1" by simp
      with True k show False by simp
    qed
    then have "2 \<le> N" unfolding N_def by simp
    then have "2 * (1 / 2) \<le> N * c" using d(3) by (intro mult_mono) simp_all
    then have x1: "1 \<le> x" by (simp add: x_def)
    have x52: "x < 2 ^ 52" using xN N by simp
    have "\<delta> < c / 2 ^ 54" using d(2) unfolding \<delta>_def by (simp add: field_simps)
    then have "N * \<delta> < N * (c / 2 ^ 54)" using N by (intro mult_strict_left_mono) simp_all
    then have "w < x / 2 ^ 54" by (simp add: x_def w_def)
    moreover have "x - K = - w" using xe P0 by simp
    ultimately have near: "\<bar>x - of_int ((int n * k) div 100)\<bar> < x / 2 ^ 54"
      using nd unfolding K_def[symmetric] by simp
    have "round_f64 x = Fin (of_int ((int n * k) div 100))"
      by (rule round_f64_near_int[OF x1 x52 near])
    moreover have "(of_int ((int n * k) div 100) :: real) < 2 ^ 63"
    proof -
      have "K \<le> N + 1" using xe P0 nd2 xN by linarith
      moreover have "(2::real) ^ 40 + 1 < 2 ^ 63" by simp
      ultimately show ?thesis using N unfolding K_def[symmetric] by linarith
    qed
    ultimately show ?thesis using Kn unfolding K_def
      by (simp add: px int_of_float64_def trunc_def)
  qed
qed

lemma literal_95_99:
  "f64_const (of_int 95 / 100) = Fin (4278419646001971 / 4503599627370496)"
  "f64_const (of_int 99 / 100) = Fin (4458563631096791 / 4503599627370496)"
  using f64_const_normal_forms(2) f64_const_fractions(4) by simp_all

lemma percentile_index_95:
  assumes "1 \<le> n" "n < 2 ^ 40"
  shows "percentile_index impl (95 / 100) n = int (n * 95 div 100)"
proof -
  have "percentile_index impl (of_int 95 / 100) n = (int n * 95) div 100"
    by (rule percentile_index_exact[OF assms _ _ literal_95_99(1)]) simp_all
  then show ?thesis by (simp add: zdiv_int)
qed

lemma percentile_index_99:
  assumes "1 \<le> n" "n < 2 ^ 40"
  shows "percentile_index impl (99 / 100) n = int (n * 99 div 100)"
proof -
  have "percentile_index impl (of_int 99 / 100) n = (int n * 99) div 100"
    by (rule percentile_index_exact[OF assms _ _ literal_95_99(2)]) simp_all
  then show ?thesis by (simp add: zdiv_int)
qed

lemma index_at_in_range: "i < length s \<Longrightarrow> index_at s (int i) = Inr (s ! i)"
  by (simp add: index_at_def)

text \<open>
  C5. \<^verbatim>\<open>Snapshot\<close> returns without a panic, copies the five counters, and leaves the
  live buffer, like every array that was in the store, as it was: it sorts a new
  array. On an empty buffer the three percentiles are the zero duration. Otherwise,
  with \<open>sorted\<close> the buffer in ascending order and \<open>len\<close> its length, P50 is
  \<open>sorted[len / 2]\<close>, P95 is \<open>sorted[\<lfloor>len * 0.95\<rfloor>]\<close> and P99 is \<open>sorted[\<lfloor>len * 0.99\<rfloor>]\<close>,
  an element of the sorted buffer and no mean of two. The float products of the source
  give these indices for every length below \<open>2 ^ 40\<close>; the buffer of \<^verbatim>\<open>NewMetrics\<close>
  holds at most 1000 samples.
\<close>

theorem Snapshot_percentiles:
  assumes "processingTimes m < next_free h" and "length (cells h (processingTimes m)) < 2 ^ 40"
  shows "\<exists>snap h'. Snapshot impl h m = Inr (snap, h')
      \<and> cells h' (processingTimes m) = cells h (processingTimes m)
      \<and> (\<forall>a<next_free h. cells h' a = cells h a)
      \<and> SpansReceived snap = spansReceived m \<and> SpansProcessed snap = spansProcessed m
      \<and> SpansDropped snap = spansDropped m \<and> SpansExported snap = spansExported m
      \<and> ExportErrors snap = exportErrors m
      \<and> (cells h (processingTimes m) = [] \<longrightarrow>
           LatencyP50 snap = 0 \<and> LatencyP95 snap = 0 \<and> LatencyP99 snap = 0)
      \<and> (cells h (processingTimes m) \<noteq> [] \<longrightarrow>
           LatencyP50 snap = sort (cells h (processingTimes m))
                               ! (length (cells h (processingTimes m)) div 2)
         \<and> LatencyP95 snap = sort (cells h (processingTimes m))
                               ! (length (cells h (processingTimes m)) * 95 div 100)
         \<and> LatencyP99 snap = sort (cells h (processingTimes m))
                               ! (length (cells h (processingTimes m)) * 99 div 100))"
proof (cases "cells h (processingTimes m) = []")
  case True
  then show ?thesis by (simp add: Snapshot_def Let_def)
next
  case False
  define buf where "buf = cells h (processingTimes m)"
  define a where "a = next_free h"
  define h3 where "h3 = h\<lparr>cells := (cells h)(a := sort buf), next_free := Suc a\<rparr>"
  define snap where "snap = \<lparr> SpansReceived = spansReceived m, SpansProcessed = spansProcessed m,
      SpansDropped = spansDropped m, SpansExported = spansExported m,
      ExportErrors = exportErrors m, LatencyP50 = sort buf ! (length buf div 2),
      LatencyP95 = sort buf ! (length buf * 95 div 100),
      LatencyP99 = sort buf ! (length buf * 99 div 100) \<rparr>"
  have ne: "buf \<noteq> []" using False by (simp add: buf_def)
  have n: "1 \<le> length buf" "length buf < 2 ^ 40"
    using ne assms(2) by (simp_all add: buf_def Suc_le_eq)
  have i50: "index_at (sort buf) (int (length buf) div 2) = Inr (sort buf ! (length buf div 2))"
  proof -
    have "length buf div 2 < length (sort buf)" using n by simp
    then have "index_at (sort buf) (int (length buf div 2)) = Inr (sort buf ! (length buf div 2))"
      by (rule index_at_in_range)
    then show ?thesis by (simp add: zdiv_int)
  qed
  have i95: "index_at (sort buf) (percentile_index impl (95 / 100) (length buf))
             = Inr (sort buf ! (length buf * 95 div 100))"
    unfolding percentile_index_95[OF n]
    by (rule index_at_in_range) (use n in simp)
  then have i95n: "index_at (sort buf) (percentile_index impl (19 / 20) (length buf))
             = Inr (sort buf ! (length buf * 95 div 100))" by simp
  have i99: "index_at (sort buf) (percentile_index impl (99 / 100) (length buf))
             = Inr (sort buf ! (length buf * 99 div 100))"
    unfolding percentile_index_99[OF n]
    by (rule index_at_in_range) (use n in simp)
  have run: "Snapshot impl h m = Inr (snap, h3)"
    unfolding Snapshot_def Let_def buf_def[symmetric]
    using ne
    by (simp add: alloc_def store_def sort_outer_sort i50 i95n i99 snap_def h3_def
        flip: a_def)
  have keep: "\<forall>b<next_free h. cells h3 b = cells h b"
    by (simp add: h3_def a_def)
  have live: "cells h3 (processingTimes m) = cells h (processingTimes m)"
    using keep assms(1) by blast
  show ?thesis
    using run keep live False
    unfolding buf_def[symmetric]
    by (intro exI[of _ snap] exI[of _ h3]) (simp add: snap_def)
qed

theorem Snapshot_percentiles_witness:
  "\<exists>snap h'. Snapshot gc_amd64
       (store (snd (NewMetrics empty_heap)) 0 [30, 10, 20, 100]) (fst (NewMetrics empty_heap))
       = Inr (snap, h')
     \<and> cells h' 0 = [30, 10, 20, 100]
     \<and> LatencyP50 snap = 30 \<and> LatencyP95 snap = 100 \<and> LatencyP99 snap = 100"
  using Snapshot_percentiles[of "fst (NewMetrics empty_heap)"
      "store (snd (NewMetrics empty_heap)) 0 [30, 10, 20, 100]" gc_amd64]
  by (auto simp add: NewMetrics_def alloc_def empty_heap_def store_def)

section \<open>The batch stage\<close>

lemma flush_None [simp]: "flush None batch = (batch, [])"
  by (simp add: flush_def)

lemma batch_loop_fill:
  "int (length batch + length xs) < n \<Longrightarrow>
   batch_loop n batch (map (\<lambda>s. (InSpan s, None)) xs @ rest) = batch_loop n (batch @ xs) rest"
  by (induction xs arbitrary: batch) (simp_all add: Let_def)

lemma batch_loop_full:
  assumes "xs \<noteq> []" "int (length batch + length xs) = n"
  shows "batch_loop n batch (map (\<lambda>s. (InSpan s, None)) xs @ rest)
         = Sent (batch @ xs) # batch_loop n [] rest"
proof -
  from assms(1) obtain ys y where xs: "xs = ys @ [y]" by (metis rev_exhaust)
  have "int (length batch + length ys) < n" using assms(2) xs by simp
  from batch_loop_fill[OF this, of "(InSpan y, None) # rest"]
  have "batch_loop n batch (map (\<lambda>s. (InSpan s, None)) xs @ rest)
        = batch_loop n (batch @ ys) ((InSpan y, None) # rest)" by (simp add: xs)
  also have "\<dots> = Sent (batch @ xs) # batch_loop n [] rest"
    using assms(2) xs by (simp add: Let_def)
  finally show ?thesis .
qed

lemma sent_spans_append: "sent_spans (xs @ ys) = sent_spans xs @ sent_spans ys"
  by (induction xs rule: sent_spans.induct) simp_all

lemma batch_loop_order:
  "uncancelled es \<Longrightarrow>
   \<exists>os. batch_loop n batch (es @ [(InClosed, None)]) = os @ [OutClosed]
        \<and> sent_spans os = batch @ received es"
proof (induction es arbitrary: batch)
  case Nil
  show ?case
  proof (cases "batch = []")
    case True
    then show ?thesis by simp
  next
    case False
    then have "batch_loop n batch ([] @ [(InClosed, None)]) = [Sent batch] @ [OutClosed]
               \<and> sent_spans [Sent batch] = batch @ received []" by simp
    then show ?thesis by blast
  qed
next
  case (Cons ec es)
  obtain e c where ec: "ec = (e, c)" by (cases ec)
  from Cons.prems have u: "uncancelled es" and c: "c = None" and e: "e \<noteq> CtxDone" "e \<noteq> InClosed"
    by (auto simp: uncancelled_def ec)
  show ?case
  proof (cases e)
    case (InSpan s)
    show ?thesis
    proof (cases "n \<le> int (length (batch @ [s]))")
      case True
      from Cons.IH[OF u, of "[]"] obtain os where
        os: "batch_loop n [] (es @ [(InClosed, None)]) = os @ [OutClosed]"
            "sent_spans os = [] @ received es" by blast
      have "batch_loop n batch ((ec # es) @ [(InClosed, None)]) = (Sent (batch @ [s]) # os) @ [OutClosed]
            \<and> sent_spans (Sent (batch @ [s]) # os) = batch @ received (ec # es)"
        using True os c ec InSpan by (simp add: Let_def)
      then show ?thesis by blast
    next
      case False
      from Cons.IH[OF u, of "batch @ [s]"] obtain os where
        os: "batch_loop n (batch @ [s]) (es @ [(InClosed, None)]) = os @ [OutClosed]"
            "sent_spans os = (batch @ [s]) @ received es" by blast
      have "batch_loop n batch ((ec # es) @ [(InClosed, None)]) = os @ [OutClosed]
            \<and> sent_spans os = batch @ received (ec # es)"
        using False os c ec InSpan by (simp add: Let_def)
      then show ?thesis by blast
    qed
  next
    case TickerC
    show ?thesis
    proof (cases "batch = []")
      case True
      from Cons.IH[OF u, of "[]"] obtain os where
        os: "batch_loop n [] (es @ [(InClosed, None)]) = os @ [OutClosed]"
            "sent_spans os = [] @ received es" by blast
      have "batch_loop n batch ((ec # es) @ [(InClosed, None)]) = os @ [OutClosed]
            \<and> sent_spans os = batch @ received (ec # es)"
        using True os c ec TickerC by simp
      then show ?thesis by blast
    next
      case False
      from Cons.IH[OF u, of "[]"] obtain os where
        os: "batch_loop n [] (es @ [(InClosed, None)]) = os @ [OutClosed]"
            "sent_spans os = [] @ received es" by blast
      have "batch_loop n batch ((ec # es) @ [(InClosed, None)]) = (Sent batch # os) @ [OutClosed]
            \<and> sent_spans (Sent batch # os) = batch @ received (ec # es)"
        using False os c ec TickerC by simp
      then show ?thesis by blast
    qed
  qed (use e in simp_all)
qed

text \<open>
  C7. A flush that is not cancelled forwards the whole buffer in arrival order and
  empties it. It is triggered by the span that brings the buffer to \<^verbatim>\<open>sendBatchSize\<close>,
  by a tick of the timer on a buffer that is not empty, and by the closing of the
  input, after which the stage stops; an empty buffer is not flushed on closing. On a
  run without cancellation that ends with the closing of the input, the output is all
  received spans in their order, then the close. 1500 spans with \<^verbatim>\<open>sendBatchSize\<close> 1024
  and no tick leave as the first 1024 in one flush and the other 476 in a second one:
  so does the loop, and so does \<^verbatim>\<open>Process\<close> when the sizes given to \<^verbatim>\<open>make\<close> are within
  what the platform accepts and the timer period is positive.
\<close>

theorem batch_stage_flushes:
  "(n \<le> int (length batch) + 1 \<longrightarrow>
      batch_loop n batch ((InSpan s, None) # es) = Sent (batch @ [s]) # batch_loop n [] es)
   \<and> (int (length batch) + 1 < n \<longrightarrow>
      batch_loop n batch ((InSpan s, None) # es) = batch_loop n (batch @ [s]) es)
   \<and> (batch \<noteq> [] \<longrightarrow>
      batch_loop n batch ((TickerC, None) # es) = Sent batch # batch_loop n [] es)
   \<and> (batch \<noteq> [] \<longrightarrow> batch_loop n batch ((InClosed, None) # es) = [Sent batch, OutClosed])
   \<and> batch_loop n [] ((InClosed, c) # es) = [OutClosed]
   \<and> (uncancelled sched \<longrightarrow>
        (\<exists>os. batch_loop n [] (sched @ [(InClosed, None)]) = os @ [OutClosed]
              \<and> sent_spans os = received sched))
   \<and> (length xs = 1500 \<longrightarrow>
        batch_loop 1024 [] (map (\<lambda>s. (InSpan s, None)) xs @ [(InClosed, None)])
          = [Sent (take 1024 xs), Sent (drop 1024 xs), OutClosed])
   \<and> (length xs = 1500 \<and> sendBatchSize p = 1024 \<and> 1024 \<le> max_slice_cap lims
        \<and> 0 \<le> batchSize p \<and> batchSize p \<le> max_chan_size lims \<and> 0 < timeout p \<longrightarrow>
        Process_batch lims p (map (\<lambda>s. (InSpan s, None)) xs @ [(InClosed, None)])
          = Inr [Sent (take 1024 xs), Sent (drop 1024 xs), OutClosed])"
proof -
  have order: "uncancelled sched \<longrightarrow>
        (\<exists>os. batch_loop n [] (sched @ [(InClosed, None)]) = os @ [OutClosed]
              \<and> sent_spans os = received sched)"
    using batch_loop_order[of sched n "[]"] by simp
  have example: "batch_loop 1024 [] (map (\<lambda>s. (InSpan s, None)) xs @ [(InClosed, None)])
          = [Sent (take 1024 xs), Sent (drop 1024 xs), OutClosed]"
    if len: "length xs = 1500"
  proof -
    define R where "R = (\<lambda>s :: Span. (InSpan s, None :: nat option))"
    have split: "map R xs = map R (take 1024 xs) @ map R (drop 1024 xs)"
      by (metis append_take_drop_id map_append)
    have ne: "take 1024 xs \<noteq> []" using len by auto
    have "batch_loop 1024 [] (map R (take 1024 xs) @ (map R (drop 1024 xs) @ [(InClosed, None)]))
          = Sent ([] @ take 1024 xs) # batch_loop 1024 [] (map R (drop 1024 xs) @ [(InClosed, None)])"
      unfolding R_def by (rule batch_loop_full[OF ne]) (simp add: len)
    moreover have "batch_loop 1024 [] (map R (drop 1024 xs) @ [(InClosed, None)])
          = batch_loop 1024 ([] @ drop 1024 xs) [(InClosed, None)]"
      unfolding R_def by (rule batch_loop_fill) (simp add: len)
    moreover have "drop 1024 xs \<noteq> []" using len by auto
    ultimately have "batch_loop 1024 [] (map R xs @ [(InClosed, None)])
          = [Sent (take 1024 xs), Sent (drop 1024 xs), OutClosed]"
      by (simp add: split)
    then show ?thesis by (simp add: R_def)
  qed
  have process: "Process_batch lims p (map (\<lambda>s. (InSpan s, None)) xs @ [(InClosed, None)])
          = Inr [Sent (take 1024 xs), Sent (drop 1024 xs), OutClosed]"
    if "length xs = 1500" "sendBatchSize p = 1024" "1024 \<le> max_slice_cap lims"
      "0 \<le> batchSize p" "batchSize p \<le> max_chan_size lims" "0 < timeout p"
    using example[OF that(1)] that(2-6) by (simp add: Process_batch_def)
  show ?thesis using order example process by (simp add: Let_def)
qed

theorem batch_stage_flushes_witness:
  "Process_batch limits_linux_amd64 (NewBatchProcessor DefaultBatchConfig)
     (map (\<lambda>s. (InSpan s, None)) (map (\<lambda>i. test_span (of_nat i) 0 []) [0..<1500])
        @ [(InClosed, None)])
   = Inr [Sent (map (\<lambda>i. test_span (of_nat i) 0 []) [0..<1024]),
          Sent (map (\<lambda>i. test_span (of_nat i) 0 []) [1024..<1500]), OutClosed]"
  using batch_stage_flushes[where xs = "map (\<lambda>i. test_span (of_nat i) 0 []) [0..<1500]"
      and p = "NewBatchProcessor DefaultBatchConfig" and lims = limits_linux_amd64]
  by (simp add: NewBatchProcessor_def DefaultBatchConfig_def limits_linux_amd64_def take_map
      drop_map)

section \<open>The attribute stage\<close>

lemma find_tag_absent:
  "k \<notin> KeyValue.Key ` set ts \<Longrightarrow> find_tag k ts i = - 1"
  by (induction ts arbitrary: i) auto

lemma find_tag_first:
  "j < length ts \<Longrightarrow> KeyValue.Key (ts ! j) = k \<Longrightarrow> \<forall>m<j. KeyValue.Key (ts ! m) \<noteq> k
     \<Longrightarrow> find_tag k ts i = int (i + j)"
proof (induction ts arbitrary: i j)
  case Nil
  then show ?case by simp
next
  case (Cons t ts)
  show ?case
  proof (cases j)
    case 0
    with Cons.prems show ?thesis by simp
  next
    case (Suc j')
    from Cons.prems(3) Suc have t: "KeyValue.Key t \<noteq> k" by auto
    have "find_tag k ts (i + 1) = int (i + 1 + j')"
    proof (rule Cons.IH)
      show "j' < length ts" using Cons.prems(1) Suc by simp
      show "KeyValue.Key (ts ! j') = k" using Cons.prems(2) Suc by simp
      show "\<forall>m<j'. KeyValue.Key (ts ! m) \<noteq> k"
      proof (intro allI impI)
        fix m assume "m < j'"
        then have "Suc m < j" using Suc by simp
        with Cons.prems(3) have "KeyValue.Key ((t # ts) ! Suc m) \<noteq> k" by blast
        then show "KeyValue.Key (ts ! m) \<noteq> k" by simp
      qed
    qed
    with t Suc show ?thesis by simp
  qed
qed

lemma action_names_distinct:
  "Insert \<noteq> Update" "Insert \<noteq> Upsert" "Insert \<noteq> Delete" "Update \<noteq> Upsert"
  "Update \<noteq> Delete" "Upsert \<noteq> Delete"
  by (simp_all add: Insert_def Update_def Upsert_def Delete_def)

lemma applyAction_cases:
  "(Action a = Update \<or> Action a = Upsert) \<and> j < length (Tags sp)
      \<and> KeyValue.Key (Tags sp ! j) = AttributeAction.Key a
      \<and> (\<forall>m<j. KeyValue.Key (Tags sp ! m) \<noteq> AttributeAction.Key a)
    \<longrightarrow> Tags (applyAction sp a)
          = (Tags sp)[j := \<lparr> KeyValue.Key = AttributeAction.Key a, VType = StringType,
                              VStr = Value a, VInt64 = 0, VFloat64 = Fin 0, VBool = False,
                              VBinary = [] \<rparr>]"
  "(Action a = Insert \<or> Action a = Upsert)
      \<and> AttributeAction.Key a \<notin> KeyValue.Key ` set (Tags sp)
    \<longrightarrow> Tags (applyAction sp a)
          = Tags sp @ [\<lparr> KeyValue.Key = AttributeAction.Key a, VType = StringType,
                          VStr = Value a, VInt64 = 0, VFloat64 = Fin 0, VBool = False,
                          VBinary = [] \<rparr>]"
  "(Action a = Insert \<and> AttributeAction.Key a \<in> KeyValue.Key ` set (Tags sp))
      \<or> (Action a = Update \<and> AttributeAction.Key a \<notin> KeyValue.Key ` set (Tags sp))
    \<longrightarrow> applyAction sp a = sp"
proof -
  show "(Action a = Update \<or> Action a = Upsert) \<and> j < length (Tags sp)
      \<and> KeyValue.Key (Tags sp ! j) = AttributeAction.Key a
      \<and> (\<forall>m<j. KeyValue.Key (Tags sp ! m) \<noteq> AttributeAction.Key a)
    \<longrightarrow> Tags (applyAction sp a)
          = (Tags sp)[j := \<lparr> KeyValue.Key = AttributeAction.Key a, VType = StringType,
                              VStr = Value a, VInt64 = 0, VFloat64 = Fin 0, VBool = False,
                              VBinary = [] \<rparr>]"
  proof (intro impI, elim conjE)
    assume act: "Action a = Update \<or> Action a = Upsert" and j: "j < length (Tags sp)"
      and kj: "KeyValue.Key (Tags sp ! j) = AttributeAction.Key a"
      and first: "\<forall>m<j. KeyValue.Key (Tags sp ! m) \<noteq> AttributeAction.Key a"
    have "find_tag (AttributeAction.Key a) (Tags sp) 0 = int j"
      using find_tag_first[OF j kj first, of 0] by simp
    then show "Tags (applyAction sp a)
          = (Tags sp)[j := \<lparr> KeyValue.Key = AttributeAction.Key a, VType = StringType,
                              VStr = Value a, VInt64 = 0, VFloat64 = Fin 0, VBool = False,
                              VBinary = [] \<rparr>]"
      using act action_names_distinct by (auto simp: applyAction_def string_tag_def)
  qed
  show "(Action a = Insert \<or> Action a = Upsert)
      \<and> AttributeAction.Key a \<notin> KeyValue.Key ` set (Tags sp)
    \<longrightarrow> Tags (applyAction sp a)
          = Tags sp @ [\<lparr> KeyValue.Key = AttributeAction.Key a, VType = StringType,
                          VStr = Value a, VInt64 = 0, VFloat64 = Fin 0, VBool = False,
                          VBinary = [] \<rparr>]"
    using find_tag_absent[of "AttributeAction.Key a" "Tags sp" 0] action_names_distinct
    by (auto simp: applyAction_def string_tag_def)
  show "(Action a = Insert \<and> AttributeAction.Key a \<in> KeyValue.Key ` set (Tags sp))
      \<or> (Action a = Update \<and> AttributeAction.Key a \<notin> KeyValue.Key ` set (Tags sp))
    \<longrightarrow> applyAction sp a = sp"
  proof (intro impI, elim disjE conjE)
    assume "Action a = Update" "AttributeAction.Key a \<notin> KeyValue.Key ` set (Tags sp)"
    then show "applyAction sp a = sp"
      using find_tag_absent[of "AttributeAction.Key a" "Tags sp" 0] action_names_distinct
      by (auto simp: applyAction_def)
  next
    assume ins: "Action a = Insert" and "AttributeAction.Key a \<in> KeyValue.Key ` set (Tags sp)"
    then have "find_tag (AttributeAction.Key a) (Tags sp) 0 \<noteq> - 1"
    proof -
      have "\<And>i. AttributeAction.Key a \<in> KeyValue.Key ` set ts \<Longrightarrow> 0 \<le> find_tag (AttributeAction.Key a) ts i" for ts
        by (induction ts) auto
      with \<open>AttributeAction.Key a \<in> KeyValue.Key ` set (Tags sp)\<close>
      have "0 \<le> find_tag (AttributeAction.Key a) (Tags sp) 0" by blast
      then show ?thesis by simp
    qed
    with ins show "applyAction sp a = sp" by (simp add: applyAction_def)
  qed
qed

text \<open>
  C10. The tag an insert, update or upsert rule writes is string-typed, with the
  rule's key and value and no other payload. Update and upsert put it in the place of
  the first tag with the key, whatever that tag's type and value were; insert and
  upsert append it when no tag has the key; insert on a present key and update on an
  absent key change nothing.
\<close>

theorem applyAction_writes_string_tags:
  "((Action a = Update \<or> Action a = Upsert) \<and> j < length (Tags sp)
      \<and> KeyValue.Key (Tags sp ! j) = AttributeAction.Key a
      \<and> (\<forall>m<j. KeyValue.Key (Tags sp ! m) \<noteq> AttributeAction.Key a)
    \<longrightarrow> Tags (applyAction sp a)
          = (Tags sp)[j := \<lparr> KeyValue.Key = AttributeAction.Key a, VType = StringType,
                              VStr = Value a, VInt64 = 0, VFloat64 = Fin 0, VBool = False,
                              VBinary = [] \<rparr>])
   \<and> ((Action a = Insert \<or> Action a = Upsert)
      \<and> AttributeAction.Key a \<notin> KeyValue.Key ` set (Tags sp)
    \<longrightarrow> Tags (applyAction sp a)
          = Tags sp @ [\<lparr> KeyValue.Key = AttributeAction.Key a, VType = StringType,
                          VStr = Value a, VInt64 = 0, VFloat64 = Fin 0, VBool = False,
                          VBinary = [] \<rparr>])
   \<and> ((Action a = Insert \<and> AttributeAction.Key a \<in> KeyValue.Key ` set (Tags sp))
      \<or> (Action a = Update \<and> AttributeAction.Key a \<notin> KeyValue.Key ` set (Tags sp))
    \<longrightarrow> applyAction sp a = sp)"
  using applyAction_cases(1)[of a j sp] applyAction_cases(2)[of a sp] applyAction_cases(3)[of a sp]
  by blast

theorem applyAction_writes_string_tags_witness:
  "Tags (applyAction (test_span 2 0 [error_tag, status_tag 200])
           \<lparr> AttributeAction.Key = ''http.status_code'', Value = ''redacted'', Action = Upsert \<rparr>)
   = [error_tag,
      \<lparr> KeyValue.Key = ''http.status_code'', VType = StringType, VStr = ''redacted'',
        VInt64 = 0, VFloat64 = Fin 0, VBool = False, VBinary = [] \<rparr>]"
  using applyAction_writes_string_tags[of
      "\<lparr> AttributeAction.Key = ''http.status_code'', Value = ''redacted'', Action = Upsert \<rparr>"
      1 "test_span 2 0 [error_tag, status_tag 200]"]
  by (simp add: test_span_def error_tag_def status_tag_def)

end
